theory Spec2Isabelle
  imports Complex_Main "HOL-Library.Word" "HOL-Library.Log_Nat"
begin

unbundle bit_operations_syntax

section \<open>Run-time failures and checked slice access\<close>

text \<open>
  A Go slice access outside \<open>0 \<le> i < len\<close> panics with "index out of range", and
  \<open>make\<close> with a negative length panics too.  The conversion of a float64 that is NaN or
  infinite to an integer type is left implementation-dependent by the Go specification;
  the model stops there with \<open>ImplementationDependent\<close> instead of choosing a value.
  The remaining constructors are the \<open>error\<close> values that the decoders and encoders
  return, one per message of the source.
\<close>

datatype error =
    IndexOutOfRange
  | MakeSliceLenOutOfRange
  | ImplementationDependent
  | ErrReadingMagicNumber
  | InvalidMagicNumber string
  | ErrReadingDimensions
  | InvalidDimensions
  | NonPositiveDimensions
  | ErrReadingMaxValue
  | InvalidMaxValue
  | ErrReadingData nat
  | RowTooLong nat
  | ErrParsingPixel nat nat
  | UnexpectedEOF nat
  | ShortRead nat nat nat
  | UnsupportedMagicNumber string
  | InconsistentRowLength
  | ScannerLineTooLong

type_synonym 'a result = "error + 'a"

definition thenE :: "'a result \<Rightarrow> ('a \<Rightarrow> 'b result) \<Rightarrow> 'b result" where
  "thenE m f = (case m of Inl e \<Rightarrow> Inl e | Inr v \<Rightarrow> f v)"

text \<open>\<open>xs[i]\<close> read and \<open>xs[i] = v\<close> written, with Go's bounds check.\<close>

definition idx :: "'a list \<Rightarrow> int \<Rightarrow> 'a result" where
  "idx xs i = (if 0 \<le> i \<and> i < int (length xs) then Inr (xs ! nat i) else Inl IndexOutOfRange)"

definition upd :: "'a list \<Rightarrow> int \<Rightarrow> 'a \<Rightarrow> 'a list result" where
  "upd xs i v = (if 0 \<le> i \<and> i < int (length xs) then Inr (xs[nat i := v]) else Inl IndexOutOfRange)"

text \<open>A counted loop \<open>for _, i := range is { s = body(i, s) }\<close> that stops at the first panic.\<close>

fun forE :: "'i list \<Rightarrow> ('i \<Rightarrow> 's \<Rightarrow> 's result) \<Rightarrow> 's \<Rightarrow> 's result" where
  "forE [] body s = Inr s"
| "forE (i # is) body s = (case body i s of Inl e \<Rightarrow> Inl e | Inr s' \<Rightarrow> forE is body s')"

text \<open>The index range of \<open>for i := lo; i < hi; i++\<close>.\<close>

definition range_int :: "int \<Rightarrow> int \<Rightarrow> int list" where
  "range_int lo hi = map (\<lambda>k. lo + int k) [0..<nat (hi - lo)]"

section \<open>float64, as far as the code uses it\<close>

text \<open>
  A float64 is modelled by its exact value, a rational, or as one of the two infinities,
  or as NaN.  The sign of a zero is not kept: the code never divides by a computed zero
  (every divisor is a converted \<open>int\<close>) and uses no other operation that tells the two
  zeros apart.
\<close>

datatype f64 = Fin rat | PInf | NInf | NaN

definition fsigned_inf :: "bool \<Rightarrow> f64" where
  "fsigned_inf negative = (if negative then NInf else PInf)"

text \<open>
  Rounding of an exact result to binary64, to nearest with ties to the even significand.
  \<open>ilog2 a\<close> is the exponent \<open>e\<close> with \<open>2^e \<le> a < 2^(e+1)\<close> of a positive \<open>a\<close>.  A value
  with exponent \<open>e\<close> is rounded to a multiple of \<open>2^(e-52)\<close> (53 significant bits); below
  \<open>2^(-1022)\<close> the spacing stays \<open>2^(-1074)\<close> (subnormal values), and a result that rounds
  to \<open>2^1024\<close> or more is an infinity.
\<close>

definition ilog2 :: "rat \<Rightarrow> int" where
  "ilog2 a = (case quotient_of a of (n, d) \<Rightarrow>
     let e = bitlen n - bitlen d in if 2 powi e \<le> a then e else e - 1)"

definition round_even :: "rat \<Rightarrow> int" where
  "round_even r =
     (let f = \<lfloor>r\<rfloor>; d = r - of_int f
      in if d < 1 / 2 then f else if 1 / 2 < d then f + 1 else if even f then f else f + 1)"

definition round64 :: "rat \<Rightarrow> f64" where
  "round64 q =
     (if q = 0 then Fin 0
      else let e = max (ilog2 \<bar>q\<bar>) (- 1022);
               u = 2 powi (e - 52);
               r = of_int (round_even (\<bar>q\<bar> / u)) * u
           in if 2 powi 1024 \<le> r then fsigned_inf (q < 0)
              else Fin (if q < 0 then - r else r))"

text \<open>
  \<open>float64(i)\<close> of an \<open>int\<close>.  The conversion is taken exactly, which is Go's result for
  \<open>|i| \<le> 2^53\<close>; beyond that Go rounds.  Integers are unbounded in this model (see PPM
  below), so the theorems about lines and filled shapes bound their coordinates.
\<close>

definition float64 :: "int \<Rightarrow> f64" where
  "float64 i = Fin (of_int i)"

fun fabs :: "f64 \<Rightarrow> f64" where
  "fabs (Fin a) = Fin \<bar>a\<bar>"
| "fabs PInf = PInf"
| "fabs NInf = PInf"
| "fabs NaN = NaN"

text \<open>\<open>math.Max\<close>: \<open>+Inf\<close> wins, then NaN, then the larger operand.\<close>

fun fmax :: "f64 \<Rightarrow> f64 \<Rightarrow> f64" where
  "fmax PInf _ = PInf"
| "fmax _ PInf = PInf"
| "fmax NaN _ = NaN"
| "fmax _ NaN = NaN"
| "fmax NInf b = b"
| "fmax a NInf = a"
| "fmax (Fin a) (Fin b) = Fin (max a b)"

text \<open>\<open>x + y\<close>, \<open>x * y\<close> and \<open>x / y\<close>: the exact result, rounded.\<close>

fun fadd :: "f64 \<Rightarrow> f64 \<Rightarrow> f64" where
  "fadd NaN _ = NaN"
| "fadd _ NaN = NaN"
| "fadd PInf NInf = NaN"
| "fadd NInf PInf = NaN"
| "fadd PInf _ = PInf"
| "fadd _ PInf = PInf"
| "fadd NInf _ = NInf"
| "fadd _ NInf = NInf"
| "fadd (Fin a) (Fin b) = round64 (a + b)"

fun fmul :: "f64 \<Rightarrow> f64 \<Rightarrow> f64" where
  "fmul NaN _ = NaN"
| "fmul _ NaN = NaN"
| "fmul (Fin a) (Fin b) = round64 (a * b)"
| "fmul (Fin a) PInf = (if a = 0 then NaN else fsigned_inf (a < 0))"
| "fmul (Fin a) NInf = (if a = 0 then NaN else fsigned_inf (0 < a))"
| "fmul PInf (Fin b) = (if b = 0 then NaN else fsigned_inf (b < 0))"
| "fmul NInf (Fin b) = (if b = 0 then NaN else fsigned_inf (0 < b))"
| "fmul PInf PInf = PInf"
| "fmul NInf NInf = PInf"
| "fmul PInf NInf = NInf"
| "fmul NInf PInf = NInf"

text \<open>Division: \<open>0/0\<close> is NaN and \<open>x/0\<close> an infinity; neither panics in Go.\<close>

fun fdiv :: "f64 \<Rightarrow> f64 \<Rightarrow> f64" where
  "fdiv NaN _ = NaN"
| "fdiv _ NaN = NaN"
| "fdiv (Fin a) (Fin b) =
     (if b \<noteq> 0 then round64 (a / b) else if a = 0 then NaN else fsigned_inf (a < 0))"
| "fdiv (Fin a) _ = Fin 0"
| "fdiv PInf (Fin b) = fsigned_inf (b < 0)"
| "fdiv NInf (Fin b) = fsigned_inf (0 \<le> b)"
| "fdiv _ _ = NaN"

text \<open>\<open>int(x)\<close> truncates a finite value towards zero; for NaN and the infinities Go
  defines no result.  Nor does it for a value that does not fit the 64 bits of an \<open>int\<close>:
  with unbounded integers that case does not show here, and the bound on the coordinates
  keeps the theorems away from it.\<close>

definition trunc :: "rat \<Rightarrow> int" where
  "trunc a = (if 0 \<le> a then \<lfloor>a\<rfloor> else \<lceil>a\<rceil>)"

fun toInt :: "f64 \<Rightarrow> int result" where
  "toInt (Fin a) = Inr (trunc a)"
| "toInt _ = Inl ImplementationDependent"

section \<open>PPM: the pixmap and its drawing primitives (PBM.go, second part)\<close>

record Pixel =
  R :: "8 word"
  G :: "8 word"
  B :: "8 word"

record Point =
  X :: int
  Y :: int

text \<open>
  \<open>type PPM struct { data [][]Pixel; width, height int; magicNumber string; max uint }\<close>.
  The field \<open>max\<close> is called \<open>maxv\<close> here.  Coordinates and sizes are Go \<open>int\<close>s, modelled
  as unbounded integers: no theorem below relies on 64-bit wrap-around.
\<close>

record PPM =
  data :: "Pixel list list"
  width :: int
  height :: int
  magicNumber :: string
  maxv :: nat

text \<open>\<open>ppm.data[y][x] = value\<close>: two bounds-checked slice accesses, no other check.\<close>

definition Set :: "int \<Rightarrow> int \<Rightarrow> Pixel \<Rightarrow> PPM \<Rightarrow> PPM result" where
  "Set x y v ppm =
     thenE (idx (data ppm) y) (\<lambda>row.
     thenE (upd row x v) (\<lambda>row'.
     Inr (ppm\<lparr>data := (data ppm)[nat y := row']\<rparr>)))"

text \<open>The body of DrawLine's loop, run \<open>n\<close> times from the position \<open>(x, y)\<close>.\<close>

fun DrawLine_loop :: "nat \<Rightarrow> f64 \<Rightarrow> f64 \<Rightarrow> f64 \<Rightarrow> f64 \<Rightarrow> Pixel \<Rightarrow> PPM \<Rightarrow> PPM result" where
  "DrawLine_loop 0 x y xIncrement yIncrement color ppm = Inr ppm"
| "DrawLine_loop (Suc n) x y xIncrement yIncrement color ppm =
     thenE (toInt x) (\<lambda>ix.
     thenE (toInt y) (\<lambda>iy.
     thenE (Set ix iy color ppm) (\<lambda>ppm'.
     DrawLine_loop n (fadd x xIncrement) (fadd y yIncrement) xIncrement yIncrement color ppm')))"

definition DrawLine :: "Point \<Rightarrow> Point \<Rightarrow> Pixel \<Rightarrow> PPM \<Rightarrow> PPM result" where
  "DrawLine p1 p2 color ppm =
     (let dx = float64 (X p2 - X p1);
          dy = float64 (Y p2 - Y p1)
      in thenE (toInt (fmax (fabs dx) (fabs dy))) (\<lambda>steps.
         let xIncrement = fdiv dx (float64 steps);
             yIncrement = fdiv dy (float64 steps)
         in DrawLine_loop (nat (steps + 1)) (float64 (X p1)) (float64 (Y p1))
              xIncrement yIncrement color ppm))"


section \<open>Raster access shared by the three image types\<close>

text \<open>\<open>d[i][j]\<close> read, \<open>d[i][j] = v\<close> written, and the two swaps of Flip and Flop.  In a Go
  tuple assignment both right-hand sides are read before either element is written.\<close>

definition get2 :: "'a list list \<Rightarrow> int \<Rightarrow> int \<Rightarrow> 'a result" where
  "get2 d i j = thenE (idx d i) (\<lambda>row. idx row j)"

definition set2 :: "'a list list \<Rightarrow> int \<Rightarrow> int \<Rightarrow> 'a \<Rightarrow> 'a list list result" where
  "set2 d i j v = thenE (idx d i) (\<lambda>row. thenE (upd row j v) (\<lambda>row'. Inr (d[nat i := row'])))"

definition swap_cells :: "'a list list \<Rightarrow> int \<Rightarrow> int \<Rightarrow> int \<Rightarrow> 'a list list result" where
  "swap_cells d i j k =
     thenE (get2 d i k) (\<lambda>b.
     thenE (get2 d i j) (\<lambda>a.
     thenE (set2 d i j b) (\<lambda>d'. set2 d' i k a)))"

definition swap_rows :: "'a list list \<Rightarrow> int \<Rightarrow> int \<Rightarrow> 'a list list result" where
  "swap_rows d i k =
     thenE (idx d k) (\<lambda>rk.
     thenE (idx d i) (\<lambda>ri.
     thenE (upd d i rk) (\<lambda>d'. upd d' k ri)))"

text \<open>The loop nest \<open>for i < height { for j < n { body } }\<close> over a raster.\<close>

definition for_cells ::
  "int \<Rightarrow> int \<Rightarrow> (int \<Rightarrow> int \<Rightarrow> 'a list list \<Rightarrow> 'a list list result) \<Rightarrow> 'a list list \<Rightarrow> 'a list list result" where
  "for_cells h n body d = forE (range_int 0 h) (\<lambda>i. forE (range_int 0 n) (\<lambda>j. body i j)) d"

text \<open>Flip and Flop are written the same way for PBM, PPM (PBM.go) and, for Flop, PGM:
  \<open>for j < width/2\<close> swaps \<open>data[i][j]\<close> with \<open>data[i][width-j-1]\<close>, and \<open>for i < height/2\<close>
  swaps the rows \<open>i\<close> and \<open>height-i-1\<close>.  For the non-negative bounds that make the loops
  run, Go's truncating \<open>/\<close> is \<open>div\<close>.\<close>

definition flip_raster :: "int \<Rightarrow> int \<Rightarrow> 'a list list \<Rightarrow> 'a list list result" where
  "flip_raster w h d = for_cells h (w div 2) (\<lambda>i j d. swap_cells d i j (w - j - 1)) d"

definition flop_raster :: "int \<Rightarrow> 'a list list \<Rightarrow> 'a list list result" where
  "flop_raster h d = forE (range_int 0 (h div 2)) (\<lambda>i d. swap_rows d i (h - i - 1)) d"

section \<open>PBM: the bitmap (PBM.go, first part)\<close>

record PBM =
  data :: "bool list list"
  width :: int
  height :: int
  magicNumber :: string

definition PBM_Invert :: "PBM \<Rightarrow> PBM result" where
  "PBM_Invert pbm =
     thenE (for_cells (PBM.height pbm) (PBM.width pbm)
              (\<lambda>i j d. thenE (get2 d i j) (\<lambda>v. set2 d i j (\<not> v))) (PBM.data pbm))
       (\<lambda>d. Inr (pbm\<lparr>PBM.data := d\<rparr>))"

definition PBM_Flip :: "PBM \<Rightarrow> PBM result" where
  "PBM_Flip pbm =
     thenE (flip_raster (PBM.width pbm) (PBM.height pbm) (PBM.data pbm))
       (\<lambda>d. Inr (pbm\<lparr>PBM.data := d\<rparr>))"

definition PBM_Flop :: "PBM \<Rightarrow> PBM result" where
  "PBM_Flop pbm =
     thenE (flop_raster (PBM.height pbm) (PBM.data pbm)) (\<lambda>d. Inr (pbm\<lparr>PBM.data := d\<rparr>))"

subsection \<open>saveP4: one packed row\<close>

text \<open>
  \<open>row := make([]byte, (width+7)/8)\<close>, then for every \<open>x < width\<close> with \<open>data[y][x]\<close> set,
  \<open>row[x/8] |= 1 << (7 - x%8)\<close>.  \<open>saveP4_row\<close> is the body of the loop over \<open>y\<close>;
  \<open>saveP4\<close> below writes the rows in order.  \<open>quot\<close> is Go's truncating \<open>/\<close>; inside the
  loop \<open>x\<close> is not negative, where \<open>/\<close> and \<open>%\<close> are \<open>div\<close> and \<open>mod\<close>.
\<close>

definition quot :: "int \<Rightarrow> int \<Rightarrow> int" where
  "quot a b = sgn a * sgn b * (\<bar>a\<bar> div \<bar>b\<bar>)"

definition saveP4_row :: "int \<Rightarrow> bool list list \<Rightarrow> int \<Rightarrow> 8 word list result" where
  "saveP4_row w d y =
     (if quot (w + 7) 8 < 0 then Inl MakeSliceLenOutOfRange
      else forE (range_int 0 w)
             (\<lambda>x row. thenE (get2 d y x) (\<lambda>v.
                if v then thenE (idx row (x div 8)) (\<lambda>b.
                            upd row (x div 8) (b OR push_bit (nat (7 - x mod 8)) 1))
                else Inr row))
             (replicate (nat (quot (w + 7) 8)) 0))"

section \<open>PGM: the graymap (the file that declares \<open>max uint\<close> and the checked \<open>Set\<close>)\<close>

record PGM =
  data :: "8 word list list"
  width :: int
  height :: int
  magicNumber :: string
  maxv :: nat

text \<open>\<open>for i := range pgm.data { for j := range pgm.data[i] { ... } }\<close> visits every stored
  sample and cannot leave the slices; \<open>uint8(pgm.max) - s\<close> wraps modulo 256.\<close>

definition PGM_Invert :: "PGM \<Rightarrow> PGM result" where
  "PGM_Invert pgm =
     Inr (pgm\<lparr>PGM.data := map (map (\<lambda>s. word_of_nat (PGM.maxv pgm) - s)) (PGM.data pgm)\<rparr>)"

text \<open>\<open>for j, k := 0, len(row)-1; j < k; j, k = j+1, k-1 { row[j], row[k] = row[k], row[j] }\<close>\<close>

function PGM_Flip_row :: "int \<Rightarrow> int \<Rightarrow> 'a list \<Rightarrow> 'a list result" where
  "PGM_Flip_row j k row =
     (if j < k then
        thenE (idx row k) (\<lambda>b.
        thenE (idx row j) (\<lambda>a.
        thenE (upd row j b) (\<lambda>row'.
        thenE (upd row' k a) (\<lambda>row''. PGM_Flip_row (j + 1) (k - 1) row''))))
      else Inr row)"
  by pat_completeness auto
termination
  by (relation "measure (\<lambda>(j, k, row). nat (k - j))") auto

fun mapE :: "('a \<Rightarrow> 'b result) \<Rightarrow> 'a list \<Rightarrow> 'b list result" where
  "mapE f [] = Inr []"
| "mapE f (x # xs) = thenE (f x) (\<lambda>y. thenE (mapE f xs) (\<lambda>ys. Inr (y # ys)))"

definition PGM_Flip :: "PGM \<Rightarrow> PGM result" where
  "PGM_Flip pgm =
     thenE (mapE (\<lambda>row. PGM_Flip_row 0 (int (length row) - 1) row) (PGM.data pgm))
       (\<lambda>d. Inr (pgm\<lparr>PGM.data := d\<rparr>))"

definition PGM_Flop :: "PGM \<Rightarrow> PGM result" where
  "PGM_Flop pgm =
     thenE (flop_raster (PGM.height pgm) (PGM.data pgm)) (\<lambda>d. Inr (pgm\<lparr>PGM.data := d\<rparr>))"

text \<open>\<open>uint8(x)\<close> of a float64: truncation, defined only when the result fits.\<close>

fun toUint8 :: "f64 \<Rightarrow> 8 word result" where
  "toUint8 (Fin a) =
     (if 0 \<le> trunc a \<and> trunc a < 256 then Inr (word_of_int (trunc a))
      else Inl ImplementationDependent)"
| "toUint8 _ = Inl ImplementationDependent"

definition float64_u :: "nat \<Rightarrow> f64" where
  "float64_u n = Fin (of_nat n)"

text \<open>
  \<open>scaledValue := float64(data[y][x]) * float64(maxValue) / float64(pgm.max)\<close>, then
  \<open>uint8(scaledValue)\<close>.  The product of two values below 256 is exact in float64; the
  quotient is rounded, and its integer part is that of the exact quotient.
\<close>

definition PGM_SetMaxValue :: "8 word \<Rightarrow> PGM \<Rightarrow> PGM result" where
  "PGM_SetMaxValue maxValue pgm =
     thenE (for_cells (PGM.height pgm) (PGM.width pgm)
              (\<lambda>y x d. thenE (get2 d y x) (\<lambda>s.
                 thenE (toUint8 (fdiv (fmul (float64_u (unat s)) (float64_u (unat maxValue)))
                                      (float64_u (PGM.maxv pgm))))
                   (\<lambda>newValue. set2 d y x newValue)))
              (PGM.data pgm))
       (\<lambda>d. Inr (pgm\<lparr>PGM.data := d, PGM.maxv := unat maxValue\<rparr>))"

text \<open>\<open>newData[i][j] = pgm.data[pgm.height-j-1][i]\<close> for \<open>i < width\<close>, \<open>j < height\<close>; nothing
  happens when a dimension is not positive.\<close>

definition PGM_Rotate90CW :: "PGM \<Rightarrow> PGM result" where
  "PGM_Rotate90CW pgm =
     (if PGM.width pgm \<le> 0 \<or> PGM.height pgm \<le> 0 then Inr pgm
      else thenE (mapE (\<lambda>i. mapE (\<lambda>j. get2 (PGM.data pgm) (PGM.height pgm - j - 1) i)
                                   (range_int 0 (PGM.height pgm)))
                       (range_int 0 (PGM.width pgm)))
             (\<lambda>newData. Inr (pgm\<lparr>PGM.data := newData, PGM.width := PGM.height pgm,
                                   PGM.height := PGM.width pgm\<rparr>)))"

text \<open>\<open>pbm.data[y][x] = pgm.data[y][x] < uint8(pgm.max/2)\<close>, with magic number \<open>P1\<close>;
  the rows are allocated with \<open>make\<close>, which panics on a negative length.\<close>

definition PGM_ToPBM :: "PGM \<Rightarrow> PBM result" where
  "PGM_ToPBM pgm =
     (if PGM.height pgm < 0 \<or> (0 < PGM.height pgm \<and> PGM.width pgm < 0)
      then Inl MakeSliceLenOutOfRange
      else thenE (mapE (\<lambda>y. mapE (\<lambda>x. thenE (get2 (PGM.data pgm) y x)
                                         (\<lambda>s. Inr (s < word_of_nat (PGM.maxv pgm div 2))))
                                  (range_int 0 (PGM.width pgm)))
                      (range_int 0 (PGM.height pgm)))
             (\<lambda>d. Inr \<lparr>PBM.data = d, width = PGM.width pgm, height = PGM.height pgm,
                        magicNumber = ''P1''\<rparr>))"

text \<open>The other PGM implementation of the repository (field \<open>max int\<close>, unchecked \<open>Set\<close>)
  compares the other way round and labels the bitmap \<open>P4\<close>:
  \<open>data[y][x] = pgm.data[y][x] > uint8(pgm.max/2)\<close>.  Its \<open>max\<close> is passed as an
  integer; Go's \<open>/\<close> truncates towards zero.\<close>

definition PGM_ToPBM_alt :: "8 word list list \<Rightarrow> int \<Rightarrow> int \<Rightarrow> int \<Rightarrow> PBM result" where
  "PGM_ToPBM_alt d w h mx =
     (if h < 0 \<or> (0 < h \<and> w < 0) then Inl MakeSliceLenOutOfRange
      else thenE (mapE (\<lambda>y. mapE (\<lambda>x. thenE (get2 d y x)
                                         (\<lambda>s. Inr (s > word_of_int (quot mx 2))))
                                  (range_int 0 w))
                      (range_int 0 h))
             (\<lambda>bits. Inr \<lparr>PBM.data = bits, width = w, height = h, magicNumber = ''P4''\<rparr>))"

section \<open>PPM: transforms (PBM.go, second part)\<close>

definition invert_pixel :: "nat \<Rightarrow> Pixel \<Rightarrow> Pixel" where
  "invert_pixel m p =
     \<lparr>R = word_of_nat m - R p, G = word_of_nat m - G p, B = word_of_nat m - B p\<rparr>"

definition PPM_Invert :: "PPM \<Rightarrow> PPM result" where
  "PPM_Invert ppm =
     thenE (for_cells (PPM.height ppm) (PPM.width ppm)
              (\<lambda>i j d. thenE (get2 d i j) (\<lambda>p. set2 d i j (invert_pixel (PPM.maxv ppm) p)))
              (PPM.data ppm))
       (\<lambda>d. Inr (ppm\<lparr>PPM.data := d\<rparr>))"

definition PPM_Flip :: "PPM \<Rightarrow> PPM result" where
  "PPM_Flip ppm =
     thenE (flip_raster (PPM.width ppm) (PPM.height ppm) (PPM.data ppm))
       (\<lambda>d. Inr (ppm\<lparr>PPM.data := d\<rparr>))"

definition PPM_Flop :: "PPM \<Rightarrow> PPM result" where
  "PPM_Flop ppm =
     thenE (flop_raster (PPM.height ppm) (PPM.data ppm)) (\<lambda>d. Inr (ppm\<lparr>PPM.data := d\<rparr>))"

text \<open>\<open>ppm.max = uint(maxValue)\<close> and nothing else.\<close>

definition PPM_SetMaxValue :: "8 word \<Rightarrow> PPM \<Rightarrow> PPM result" where
  "PPM_SetMaxValue maxValue ppm = Inr (ppm\<lparr>PPM.maxv := unat maxValue\<rparr>)"

text \<open>\<open>newData\<close> is allocated as \<open>width\<close> rows of \<open>height\<close> zero pixels (\<open>make\<close> panics on a
  negative length), then \<open>newData[j][height-1-i] = data[i][j]\<close> for \<open>i < height\<close>,
  \<open>j < width\<close>.\<close>

definition zero_pixel :: Pixel where
  "zero_pixel = \<lparr>R = 0, G = 0, B = 0\<rparr>"

definition make2 :: "int \<Rightarrow> int \<Rightarrow> 'a \<Rightarrow> 'a list list result" where
  "make2 rows cols z =
     (if rows < 0 \<or> (0 < rows \<and> cols < 0) then Inl MakeSliceLenOutOfRange
      else Inr (replicate (nat rows) (replicate (nat cols) z)))"

definition PPM_Rotate90CW :: "PPM \<Rightarrow> PPM result" where
  "PPM_Rotate90CW ppm =
     thenE (make2 (PPM.width ppm) (PPM.height ppm) zero_pixel) (\<lambda>newData.
     thenE (for_cells (PPM.height ppm) (PPM.width ppm)
              (\<lambda>i j nd. thenE (get2 (PPM.data ppm) i j)
                           (\<lambda>p. set2 nd j (PPM.height ppm - 1 - i) p))
              newData)
       (\<lambda>nd. Inr (ppm\<lparr>PPM.data := nd, PPM.width := PPM.height ppm,
                         PPM.height := PPM.width ppm\<rparr>)))"


section \<open>PPM: the drawing operations\<close>

definition DrawRectangle :: "Point \<Rightarrow> int \<Rightarrow> int \<Rightarrow> Pixel \<Rightarrow> PPM \<Rightarrow> PPM result" where
  "DrawRectangle p1 w h color ppm =
     (let p2 = \<lparr>X = X p1 + w, Y = Y p1\<rparr>;
          p3 = \<lparr>X = X p1, Y = Y p1 + h\<rparr>;
          p4 = \<lparr>X = X p1 + w, Y = Y p1 + h\<rparr>
      in thenE (DrawLine p1 p2 color ppm) (\<lambda>ppm.
         thenE (DrawLine p2 p4 color ppm) (\<lambda>ppm.
         thenE (DrawLine p4 p3 color ppm) (\<lambda>ppm.
         DrawLine p3 p1 color ppm))))"

definition DrawFilledRectangle :: "Point \<Rightarrow> int \<Rightarrow> int \<Rightarrow> Pixel \<Rightarrow> PPM \<Rightarrow> PPM result" where
  "DrawFilledRectangle p1 w h color ppm =
     forE (range_int (Y p1) (Y p1 + h)) (\<lambda>i.
       forE (range_int (X p1) (X p1 + w)) (\<lambda>j. Set j i color)) ppm"

definition DrawCircle :: "Point \<Rightarrow> int \<Rightarrow> Pixel \<Rightarrow> PPM \<Rightarrow> PPM result" where
  "DrawCircle center radius color ppm =
     forE (range_int 0 (radius * 2 + 1)) (\<lambda>i.
       forE (range_int 0 (radius * 2 + 1)) (\<lambda>j ppm.
         let x = i - radius; y = j - radius
         in if x * x + y * y \<le> radius * radius
            then Set (X center + x) (Y center + y) color ppm else Inr ppm)) ppm"

definition DrawFilledCircle :: "Point \<Rightarrow> int \<Rightarrow> Pixel \<Rightarrow> PPM \<Rightarrow> PPM result" where
  "DrawFilledCircle center radius color ppm =
     forE (range_int (- radius) (radius + 1)) (\<lambda>i.
       forE (range_int (- radius) (radius + 1)) (\<lambda>j ppm.
         if i * i + j * j \<le> radius * radius
         then Set (X center + i) (Y center + j) color ppm else Inr ppm)) ppm"

definition DrawTriangle :: "Point \<Rightarrow> Point \<Rightarrow> Point \<Rightarrow> Pixel \<Rightarrow> PPM \<Rightarrow> PPM result" where
  "DrawTriangle p1 p2 p3 color ppm =
     thenE (DrawLine p1 p2 color ppm) (\<lambda>ppm.
     thenE (DrawLine p2 p3 color ppm) (\<lambda>ppm.
     DrawLine p3 p1 color ppm))"

text \<open>The three compare-and-swap steps of the sort by \<open>Y\<close>: \<open>(0,1)\<close>, \<open>(0,2)\<close>, \<open>(1,2)\<close>.\<close>

definition swap_if_lower :: "nat \<Rightarrow> nat \<Rightarrow> Point list \<Rightarrow> Point list" where
  "swap_if_lower i j points =
     (if Y (points ! i) > Y (points ! j) then points[i := points ! j, j := points ! i]
      else points)"

definition sort_by_Y :: "Point \<Rightarrow> Point \<Rightarrow> Point \<Rightarrow> Point list" where
  "sort_by_Y p1 p2 p3 =
     swap_if_lower 1 2 (swap_if_lower 0 2 (swap_if_lower 0 1 [p1, p2, p3]))"

text \<open>One scanline of the fill: \<open>x1 := int(float64(a.X) + s1*float64(y-a.Y))\<close>,
  \<open>x2 := int(float64(b.X) + s2*float64(y-b.Y))\<close>, then a line from \<open>(x1,y)\<close> to \<open>(x2,y)\<close>.\<close>

definition scanline :: "Point \<Rightarrow> f64 \<Rightarrow> Point \<Rightarrow> f64 \<Rightarrow> Pixel \<Rightarrow> int \<Rightarrow> PPM \<Rightarrow> PPM result" where
  "scanline a s1 b s2 color y ppm =
     thenE (toInt (fadd (float64 (X a)) (fmul s1 (float64 (y - Y a))))) (\<lambda>x1.
     thenE (toInt (fadd (float64 (X b)) (fmul s2 (float64 (y - Y b))))) (\<lambda>x2.
     DrawLine \<lparr>X = x1, Y = y\<rparr> \<lparr>X = x2, Y = y\<rparr> color ppm))"

definition DrawFilledTriangle :: "Point \<Rightarrow> Point \<Rightarrow> Point \<Rightarrow> Pixel \<Rightarrow> PPM \<Rightarrow> PPM result" where
  "DrawFilledTriangle p1 p2 p3 color ppm =
     (let points = sort_by_Y p1 p2 p3;
          q0 = points ! 0; q1 = points ! 1; q2 = points ! 2;
          slope1 = fdiv (float64 (X q1 - X q0)) (float64 (Y q1 - Y q0));
          slope2 = fdiv (float64 (X q2 - X q0)) (float64 (Y q2 - Y q0));
          slope3 = fdiv (float64 (X q2 - X q1)) (float64 (Y q2 - Y q1))
      in thenE (forE (range_int (Y q0) (Y q1 + 1)) (scanline q0 slope1 q0 slope2 color) ppm)
           (\<lambda>ppm. forE (range_int (Y q1 + 1) (Y q2 + 1)) (scanline q1 slope3 q0 slope2 color) ppm))"

definition DrawPolygon :: "Point list \<Rightarrow> Pixel \<Rightarrow> PPM \<Rightarrow> PPM result" where
  "DrawPolygon points color ppm =
     thenE (forE (range_int 0 (int (length points) - 1))
              (\<lambda>i ppm. thenE (idx points i) (\<lambda>a. thenE (idx points (i + 1)) (\<lambda>b.
                          DrawLine a b color ppm))) ppm)
       (\<lambda>ppm. thenE (idx points (int (length points) - 1)) (\<lambda>a. thenE (idx points 0) (\<lambda>b.
                 DrawLine a b color ppm)))"

text \<open>The bounding box is only used for its \<open>minY\<close> and \<open>maxY\<close>; \<open>points[0]\<close> panics on an
  empty slice.\<close>

definition bounding_Y :: "Point list \<Rightarrow> (int \<times> int) result" where
  "bounding_Y points =
     thenE (idx points 0) (\<lambda>p0.
       Inr (fold (\<lambda>p (minY, maxY). (if Y p < minY then Y p else minY,
                                      if Y p > maxY then Y p else maxY))
                 points (Y p0, Y p0)))"

text \<open>The edge test of one vertex \<open>i\<close> on scanline \<open>y\<close>; the state is the running count
  \<open>intersections\<close> together with the canvas.\<close>

definition polygon_vertex :: "Point list \<Rightarrow> Pixel \<Rightarrow> int \<Rightarrow> int \<Rightarrow> int \<times> PPM \<Rightarrow> (int \<times> PPM) result" where
  "polygon_vertex points color y i st =
     (case st of (intersections, ppm) \<Rightarrow>
      thenE (idx points i) (\<lambda>a.
      thenE (idx points ((i + 1) mod int (length points))) (\<lambda>b.
      let x1 = X a; y1 = Y a; x2 = X b; y2 = Y b in
      thenE (if (y1 \<le> y \<and> y < y2) \<or> (y2 \<le> y \<and> y < y1)
             then thenE (toInt (fadd (float64 x1)
                           (fmul (fdiv (float64 (y - y1)) (float64 (y2 - y1))) (float64 (x2 - x1)))))
                    (\<lambda>xi. Inr (if xi < X a then intersections + 1 else intersections))
             else Inr intersections) (\<lambda>intersections.
      if intersections mod 2 \<noteq> 0
      then thenE (Set (X a) y color ppm) (\<lambda>ppm. Inr (intersections, ppm))
      else Inr (intersections, ppm)))))"

definition DrawFilledPolygon :: "Point list \<Rightarrow> Pixel \<Rightarrow> PPM \<Rightarrow> PPM result" where
  "DrawFilledPolygon points color ppm =
     thenE (bounding_Y points) (\<lambda>(minY, maxY).
       forE (range_int minY (maxY + 1))
         (\<lambda>y ppm. thenE (forE (range_int 0 (int (length points)))
                            (polygon_vertex points color y) (0, ppm))
                     (\<lambda>(intersections, ppm). Inr ppm)) ppm)"


section \<open>Text: white space, fields, decimal numbers\<close>

text \<open>
  A file is a list of bytes (\<open>char\<close> is a byte).  \<open>strings.TrimSpace\<close>, \<open>strings.Fields\<close>
  and the \<open>fmt\<close> scanner all use Unicode's White\_Space runes; these are their UTF-8
  encodings.  A byte string holds such a rune at a position exactly when one of the
  encodings starts there.
\<close>

definition nl :: char where
  "nl = CHR 0x0A"

definition space_runes :: "string list" where
  "space_runes =
     [[CHR 0x09], [CHR 0x0A], [CHR 0x0B], [CHR 0x0C], [CHR 0x0D], [CHR 0x20],
      [CHR 0xC2, CHR 0x85], [CHR 0xC2, CHR 0xA0], [CHR 0xE1, CHR 0x9A, CHR 0x80],
      [CHR 0xE2, CHR 0x80, CHR 0x80], [CHR 0xE2, CHR 0x80, CHR 0x81],
      [CHR 0xE2, CHR 0x80, CHR 0x82], [CHR 0xE2, CHR 0x80, CHR 0x83],
      [CHR 0xE2, CHR 0x80, CHR 0x84], [CHR 0xE2, CHR 0x80, CHR 0x85],
      [CHR 0xE2, CHR 0x80, CHR 0x86], [CHR 0xE2, CHR 0x80, CHR 0x87],
      [CHR 0xE2, CHR 0x80, CHR 0x88], [CHR 0xE2, CHR 0x80, CHR 0x89],
      [CHR 0xE2, CHR 0x80, CHR 0x8A], [CHR 0xE2, CHR 0x80, CHR 0xA8],
      [CHR 0xE2, CHR 0x80, CHR 0xA9], [CHR 0xE2, CHR 0x80, CHR 0xAF],
      [CHR 0xE2, CHR 0x81, CHR 0x9F], [CHR 0xE3, CHR 0x80, CHR 0x80]]"

text \<open>The length of the white-space rune at the head (at the end) of \<open>s\<close>, or 0.\<close>

definition space_len :: "string \<Rightarrow> nat" where
  "space_len s =
     (case find (\<lambda>r. take (length r) s = r) space_runes of None \<Rightarrow> 0 | Some r \<Rightarrow> length r)"

definition space_len_end :: "string \<Rightarrow> nat" where
  "space_len_end s =
     (case find (\<lambda>r. take (length r) (rev s) = rev r) space_runes of
        None \<Rightarrow> 0 | Some r \<Rightarrow> length r)"

function TrimLeft :: "string \<Rightarrow> string" where
  "TrimLeft s = (if space_len s = 0 \<or> s = [] then s else TrimLeft (drop (space_len s) s))"
  by pat_completeness auto
termination
  by (relation "measure length") auto

function TrimRight :: "string \<Rightarrow> string" where
  "TrimRight s =
     (if space_len_end s = 0 \<or> s = [] then s
      else TrimRight (take (length s - space_len_end s) s))"
  by pat_completeness auto
termination
  by (relation "measure length") auto

definition TrimSpace :: "string \<Rightarrow> string" where
  "TrimSpace s = TrimRight (TrimLeft s)"

text \<open>\<open>strings.Fields\<close>: the maximal runs of bytes between white-space runes; \<open>tok\<close> is
  the field being collected.\<close>

function Fields_from :: "string \<Rightarrow> string \<Rightarrow> string list" where
  "Fields_from tok [] = (if tok = [] then [] else [tok])"
| "Fields_from tok (c # cs) =
     (if space_len (c # cs) = 0 then Fields_from (tok @ [c]) cs
      else (if tok = [] then [] else [tok]) @ Fields_from [] (drop (space_len (c # cs)) (c # cs)))"
  by pat_completeness auto
termination
  by (relation "measure (\<lambda>(tok, s). length s)") auto

definition Fields :: "string \<Rightarrow> string list" where
  "Fields s = Fields_from [] s"

text \<open>Decimal output of \<open>%d\<close>, \<open>Fprint\<close> and \<open>Fprintln\<close> for integers.\<close>

definition digit_char :: "nat \<Rightarrow> char" where
  "digit_char d = ''0123456789'' ! d"

fun show_nat :: "nat \<Rightarrow> string" where
  "show_nat n = (if n < 10 then [digit_char n] else show_nat (n div 10) @ [digit_char (n mod 10)])"

definition show_int :: "int \<Rightarrow> string" where
  "show_int i = (if i < 0 then CHR ''-'' # show_nat (nat (- i)) else show_nat (nat i))"

text \<open>
  Decimal input of the verb \<open>%d\<close> in \<open>fmt.Sscanf\<close>.  The scanner skips white space (a
  newline is an error), accepts a sign for a signed operand only, collects the longest
  run of the characters \<open>0123456789_\<close>, and hands it to \<open>strconv\<close> with base 10, which
  rejects an empty run, any underscore, and a value outside the operand's range.
  The result is the value and the unread rest.
\<close>

definition is_digit :: "char \<Rightarrow> bool" where
  "is_digit c = (c \<in> set ''0123456789'')"

definition digit_value :: "char \<Rightarrow> nat" where
  "digit_value c = of_char c - 48"

definition parse_nat :: "string \<Rightarrow> nat" where
  "parse_nat ds = foldl (\<lambda>n c. 10 * n + digit_value c) 0 ds"

function SkipSpace :: "string \<Rightarrow> string option" where
  "SkipSpace s =
     (if s = [] \<or> space_len s = 0 then Some s
      else if hd s = nl then None
      else SkipSpace (drop (space_len s) s))"
  by pat_completeness auto
termination
  by (relation "measure length") auto

definition scan_number :: "string \<Rightarrow> (nat \<times> string) option" where
  "scan_number s =
     (let tok = takeWhile (\<lambda>c. is_digit c \<or> c = CHR ''_'') s
      in if tok = [] \<or> CHR ''_'' \<in> set tok then None
         else Some (parse_nat tok, dropWhile (\<lambda>c. is_digit c \<or> c = CHR ''_'') s))"

text \<open>\<open>%d\<close> into an \<open>int\<close> (64 bits).\<close>

definition scan_int :: "string \<Rightarrow> (int \<times> string) option" where
  "scan_int s =
     (case SkipSpace s of None \<Rightarrow> None | Some s1 \<Rightarrow>
        let negative = (s1 \<noteq> [] \<and> hd s1 = CHR ''-'');
            s2 = (if s1 \<noteq> [] \<and> (hd s1 = CHR ''-'' \<or> hd s1 = CHR ''+'') then tl s1 else s1)
        in case scan_number s2 of None \<Rightarrow> None | Some (n, rest) \<Rightarrow>
             let v = (if negative then - int n else int n)
             in if - (2 ^ 63) \<le> v \<and> v < 2 ^ 63 then Some (v, rest) else None)"

text \<open>\<open>%d\<close> into an unsigned operand of \<open>bits\<close> bits (\<open>uint8\<close>: 8, \<open>uint\<close>: 64).\<close>

definition scan_uint :: "nat \<Rightarrow> string \<Rightarrow> (nat \<times> string) option" where
  "scan_uint bits s =
     (case SkipSpace s of None \<Rightarrow> None | Some s1 \<Rightarrow>
        case scan_number s1 of None \<Rightarrow> None | Some (n, rest) \<Rightarrow>
          if n < 2 ^ bits then Some (n, rest) else None)"

text \<open>\<open>Sscanf(s, "%d %d", &a, &b)\<close> into two \<open>int\<close>s.  The blank of the format matches any
  run of blanks, which the second \<open>%d\<close> skips anyway.  The operands scanned before a
  failure keep their new values: the result lists them, with \<open>True\<close> when all were read.\<close>

definition Sscanf_int2 :: "string \<Rightarrow> int list \<times> bool" where
  "Sscanf_int2 s =
     (case scan_int s of None \<Rightarrow> ([], False) | Some (a, s1) \<Rightarrow>
        case scan_int s1 of None \<Rightarrow> ([a], False) | Some (b, s2) \<Rightarrow> ([a, b], True))"

definition Sscanf_uint1 :: "nat \<Rightarrow> string \<Rightarrow> nat option" where
  "Sscanf_uint1 bits s = map_option fst (scan_uint bits s)"

definition Sscanf_uint8_3 :: "string \<Rightarrow> nat list \<times> bool" where
  "Sscanf_uint8_3 s =
     (case scan_uint 8 s of None \<Rightarrow> ([], False) | Some (a, s1) \<Rightarrow>
        case scan_uint 8 s1 of None \<Rightarrow> ([a], False) | Some (b, s2) \<Rightarrow>
          case scan_uint 8 s2 of None \<Rightarrow> ([a, b], False) | Some (c, s3) \<Rightarrow> ([a, b, c], True))"

section \<open>bufio.Reader over a regular file\<close>

text \<open>
  \<open>bufio.NewReader\<close> allocates a buffer of 4096 bytes.  The state is the unread part of
  the buffer and the unread part of the file; a read of a regular file returns as many
  bytes as are asked for, or all that are left.
\<close>

definition defaultBufSize :: nat where
  "defaultBufSize = 4096"

record Reader =
  buf :: string
  rest :: string

definition NewReader :: "string \<Rightarrow> Reader" where
  "NewReader file = \<lparr>buf = [], rest = file\<rparr>"

text \<open>\<open>fill\<close>: one read of the file into the free space behind the unread bytes.\<close>

definition fill :: "Reader \<Rightarrow> Reader" where
  "fill b =
     (let n = defaultBufSize - length (buf b)
      in \<lparr>buf = buf b @ take n (rest b), rest = drop n (rest b)\<rparr>)"

text \<open>
  \<open>ReadString('\n')\<close>: search the buffer; when the delimiter is not there, hand a full
  buffer over to the collected line (\<open>acc\<close>) or fill the buffer, and search again; at the
  end of the file the call fails with \<open>io.EOF\<close> (\<open>None\<close>).
\<close>

function ReadString_from :: "string \<Rightarrow> Reader \<Rightarrow> (string \<times> Reader) option" where
  "ReadString_from acc b =
     (if nl \<in> set (buf b)
      then Some (acc @ takeWhile (\<lambda>c. c \<noteq> nl) (buf b) @ [nl],
                 b\<lparr>buf := tl (dropWhile (\<lambda>c. c \<noteq> nl) (buf b))\<rparr>)
      else if length (buf b) \<ge> defaultBufSize
      then ReadString_from (acc @ buf b) (b\<lparr>buf := []\<rparr>)
      else if rest b = [] then None
      else ReadString_from acc (fill b))"
  by pat_completeness auto
termination
  by (relation "measure (\<lambda>(acc, b). 2 * length (rest b) +
                          (if length (buf b) \<ge> defaultBufSize then 1 else 0))")
     (auto simp: fill_def defaultBufSize_def Let_def)

definition ReadString :: "Reader \<Rightarrow> (string \<times> Reader) option" where
  "ReadString b = ReadString_from [] b"

text \<open>
  \<open>Read(p)\<close> with \<open>len(p) = n\<close>: the bytes come from the buffer when it holds any, without
  a further read of the file, so fewer than \<open>n\<close> may be returned; an empty buffer is
  refilled by one read (or bypassed when \<open>n\<close> is at least the buffer size).  \<open>None\<close> is
  \<open>io.EOF\<close>; otherwise the result is the bytes copied into \<open>p\<close>.
\<close>

definition Read :: "nat \<Rightarrow> Reader \<Rightarrow> (string \<times> Reader) option" where
  "Read n b =
     (if n = 0 then Some ([], b)
      else if buf b = [] then
        (if rest b = [] then None
         else if n \<ge> defaultBufSize then Some (take n (rest b), b\<lparr>rest := drop n (rest b)\<rparr>)
         else let b' = \<lparr>buf = take defaultBufSize (rest b), rest = drop defaultBufSize (rest b)\<rparr>
              in Some (take n (buf b'), b'\<lparr>buf := drop n (buf b')\<rparr>))
      else Some (take n (buf b), b\<lparr>buf := drop n (buf b)\<rparr>))"


section \<open>bufio.Scanner with the line splitter\<close>

text \<open>
  \<open>Scan\<close> advances to the next line and \<open>Text\<close> returns it without its newline and without
  one carriage return before it; a last line needs no newline.  At the end of the file
  \<open>Scan\<close> reports false (ignored by the only caller) and \<open>Text\<close> is empty.  The scanner
  gives up on a line of 65536 bytes or more; what the caller then reads is not modelled
  (\<open>None\<close>).
\<close>

record Scanner =
  remaining :: string
  Text :: string

definition NewScanner :: "string \<Rightarrow> Scanner" where
  "NewScanner file = \<lparr>remaining = file, Text = []\<rparr>"

definition dropCR :: "string \<Rightarrow> string" where
  "dropCR line = (if line \<noteq> [] \<and> last line = CHR 0x0D then butlast line else line)"

definition Scan :: "Scanner \<Rightarrow> Scanner option" where
  "Scan sc =
     (if remaining sc = [] then Some (sc\<lparr>Text := []\<rparr>)
      else let line = takeWhile (\<lambda>c. c \<noteq> nl) (remaining sc)
           in if length line \<ge> 65536 then None
              else Some \<lparr>remaining = drop (length line + 1) (remaining sc), Text = dropCR line\<rparr>)"

section \<open>PBM codec (PBM.go, first part)\<close>

text \<open>A file is read from and written to as a byte string; failures of \<open>os.Open\<close> and
  \<open>os.Create\<close> and write errors are outside the model.\<close>

definition enumerate_int :: "'a list \<Rightarrow> (int \<times> 'a) list" where
  "enumerate_int xs = zip (map int [0..<length xs]) xs"

definition ReadPBM_P1_row ::
  "int \<Rightarrow> int \<Rightarrow> bool list list \<times> Reader \<Rightarrow> (bool list list \<times> Reader) result" where
  "ReadPBM_P1_row w y st =
     (case st of (d, reader) \<Rightarrow>
      case ReadString reader of
        None \<Rightarrow> Inl (ErrReadingData (nat y))
      | Some (line, reader') \<Rightarrow>
          thenE (forE (enumerate_int (Fields line))
                   (\<lambda>(x, field) d. if x \<ge> w then Inl (RowTooLong (nat y))
                                    else set2 d y x (field = ''1'')) d)
            (\<lambda>d. Inr (d, reader')))"

definition ReadPBM_P4_row ::
  "int \<Rightarrow> int \<Rightarrow> bool list list \<times> Reader \<Rightarrow> (bool list list \<times> Reader) result" where
  "ReadPBM_P4_row w y st =
     (case st of (d, reader) \<Rightarrow>
      let expectedBytesPerRow = quot (w + 7) 8 in
      if expectedBytesPerRow < 0 then Inl MakeSliceLenOutOfRange
      else case Read (nat expectedBytesPerRow) reader of
        None \<Rightarrow> Inl (UnexpectedEOF (nat y))
      | Some (row, reader') \<Rightarrow>
          if int (length row) < expectedBytesPerRow
          then Inl (ShortRead (nat y) (nat expectedBytesPerRow) (length row))
          else thenE (forE (range_int 0 w)
                        (\<lambda>x d. thenE (idx row (x div 8)) (\<lambda>b.
                           set2 d y x
                             ((drop_bit (nat (7 - x mod 8)) (of_char b :: int)) AND 1 \<noteq> 0))) d)
                 (\<lambda>d. Inr (d, reader')))"

definition ReadPBM :: "string \<Rightarrow> PBM result" where
  "ReadPBM file =
     (case ReadString (NewReader file) of
        None \<Rightarrow> Inl ErrReadingMagicNumber
      | Some (line, reader) \<Rightarrow>
          let magicNumber = TrimSpace line in
          if magicNumber \<noteq> ''P1'' \<and> magicNumber \<noteq> ''P4''
          then Inl (InvalidMagicNumber magicNumber)
          else case ReadString reader of
            None \<Rightarrow> Inl ErrReadingDimensions
          | Some (dimensions, reader) \<Rightarrow>
              (case Sscanf_int2 (TrimSpace dimensions) of
                 ([w, h], True) \<Rightarrow>
                   thenE (make2 h w False) (\<lambda>d.
                   thenE (forE (range_int 0 h)
                            (if magicNumber = ''P1'' then ReadPBM_P1_row w else ReadPBM_P4_row w)
                            (d, reader))
                     (\<lambda>(d, reader).
                        Inr \<lparr>PBM.data = d, width = w, height = h, magicNumber = magicNumber\<rparr>))
               | _ \<Rightarrow> Inl InvalidDimensions))"

text \<open>\<open>saveP1\<close>: \<open>1\<close> or \<open>0\<close> per pixel, a blank between two pixels, a newline after each
  row.\<close>

definition saveP1 :: "PBM \<Rightarrow> string result" where
  "saveP1 pbm =
     thenE (mapE (\<lambda>i.
              thenE (mapE (\<lambda>j. thenE (get2 (PBM.data pbm) i j) (\<lambda>v.
                             Inr ((if v then ''1'' else ''0'') @
                                  (if j < PBM.width pbm - 1 then '' '' else []))))
                          (range_int 0 (PBM.width pbm)))
                (\<lambda>cells. Inr (concat cells @ [nl])))
              (range_int 0 (PBM.height pbm)))
       (\<lambda>rows. Inr (concat rows))"

definition byte_char :: "8 word \<Rightarrow> char" where
  "byte_char b = char_of (unat b)"

definition saveP4 :: "PBM \<Rightarrow> string result" where
  "saveP4 pbm =
     thenE (mapE (\<lambda>y. thenE (saveP4_row (PBM.width pbm) (PBM.data pbm) y)
                         (\<lambda>row. Inr (map byte_char row)))
                 (range_int 0 (PBM.height pbm)))
       (\<lambda>rows. Inr (concat rows))"

text \<open>\<open>Save\<close>: the header \<open>"%s\n%d %d\n"\<close>, then the rows in the format that the magic
  number names.  The result is the content of the file when \<open>Save\<close> returns \<open>nil\<close>.\<close>

definition PBM_Save :: "PBM \<Rightarrow> string result" where
  "PBM_Save pbm =
     (let header = PBM.magicNumber pbm @ [nl] @ show_int (PBM.width pbm) @ '' '' @
                   show_int (PBM.height pbm) @ [nl]
      in if PBM.magicNumber pbm = ''P1'' then thenE (saveP1 pbm) (\<lambda>body. Inr (header @ body))
         else if PBM.magicNumber pbm = ''P4'' then thenE (saveP4 pbm) (\<lambda>body. Inr (header @ body))
         else Inl (UnsupportedMagicNumber (PBM.magicNumber pbm)))"

section \<open>PGM codec\<close>

definition ReadPGM_P2_row ::
  "int \<Rightarrow> int \<Rightarrow> 8 word list list \<times> Reader \<Rightarrow> (8 word list list \<times> Reader) result" where
  "ReadPGM_P2_row w y st =
     (case st of (d, reader) \<Rightarrow>
      case ReadString reader of
        None \<Rightarrow> Inl (ErrReadingData (nat y))
      | Some (line, reader') \<Rightarrow>
          thenE (forE (enumerate_int (Fields line))
                   (\<lambda>(x, field) rowData.
                      if x \<ge> w then Inl (RowTooLong (nat y))
                      else case Sscanf_uint1 8 field of
                             None \<Rightarrow> Inl (ErrParsingPixel (nat y) (nat x))
                           | Some pixelValue \<Rightarrow> upd rowData x (word_of_nat pixelValue))
                   (replicate (nat w) 0))
            (\<lambda>rowData. thenE (upd d y rowData) (\<lambda>d. Inr (d, reader'))))"

definition char_byte :: "char \<Rightarrow> 8 word" where
  "char_byte c = word_of_nat (of_char c)"

definition ReadPGM_P5_row ::
  "int \<Rightarrow> int \<Rightarrow> 8 word list list \<times> Reader \<Rightarrow> (8 word list list \<times> Reader) result" where
  "ReadPGM_P5_row w y st =
     (case st of (d, reader) \<Rightarrow>
      case Read (nat w) reader of
        None \<Rightarrow> Inl (UnexpectedEOF (nat y))
      | Some (row, reader') \<Rightarrow>
          if int (length row) < w then Inl (ShortRead (nat y) (nat w) (length row))
          else thenE (mapE (\<lambda>x. thenE (idx row x) (\<lambda>c. Inr (char_byte c))) (range_int 0 w))
                 (\<lambda>rowData. thenE (upd d y rowData) (\<lambda>d. Inr (d, reader'))))"

definition ReadPGM :: "string \<Rightarrow> PGM result" where
  "ReadPGM file =
     (case ReadString (NewReader file) of
        None \<Rightarrow> Inl ErrReadingMagicNumber
      | Some (line, reader) \<Rightarrow>
          let magicNumber = TrimSpace line in
          if magicNumber \<noteq> ''P2'' \<and> magicNumber \<noteq> ''P5''
          then Inl (InvalidMagicNumber magicNumber)
          else case ReadString reader of
            None \<Rightarrow> Inl ErrReadingDimensions
          | Some (dimensions, reader) \<Rightarrow>
              (case Sscanf_int2 (TrimSpace dimensions) of
                 ([w, h], True) \<Rightarrow>
                   if w \<le> 0 \<or> h \<le> 0 then Inl NonPositiveDimensions
                   else (case ReadString reader of
                     None \<Rightarrow> Inl ErrReadingMaxValue
                   | Some (maxValue, reader) \<Rightarrow>
                       (case Sscanf_uint1 8 (TrimSpace maxValue) of
                          None \<Rightarrow> Inl InvalidMaxValue
                        | Some mx \<Rightarrow>
                            thenE (forE (range_int 0 h)
                                     (if magicNumber = ''P2'' then ReadPGM_P2_row w
                                      else ReadPGM_P5_row w)
                                     (replicate (nat h) [], reader))
                              (\<lambda>(d, reader).
                                 Inr \<lparr>PGM.data = d, width = w, height = h,
                                      magicNumber = magicNumber, maxv = mx\<rparr>)))
               | _ \<Rightarrow> Inl InvalidDimensions))"

definition saveP2PGM :: "PGM \<Rightarrow> string result" where
  "saveP2PGM pgm =
     thenE (mapE (\<lambda>y.
              thenE (mapE (\<lambda>x. thenE (get2 (PGM.data pgm) y x) (\<lambda>v.
                             Inr (show_nat (unat v) @
                                  (if x < PGM.width pgm - 1 then '' '' else []))))
                          (range_int 0 (PGM.width pgm)))
                (\<lambda>cells. Inr (concat cells @ [nl])))
              (range_int 0 (PGM.height pgm)))
       (\<lambda>rows. Inr (concat rows))"

definition saveP5PGM :: "PGM \<Rightarrow> string result" where
  "saveP5PGM pgm =
     (if 0 < PGM.height pgm \<and> PGM.width pgm < 0 then Inl MakeSliceLenOutOfRange
      else thenE (mapE (\<lambda>y. thenE (mapE (\<lambda>x. get2 (PGM.data pgm) y x) (range_int 0 (PGM.width pgm)))
                               (\<lambda>row. Inr (map byte_char row)))
                       (range_int 0 (PGM.height pgm)))
             (\<lambda>rows. Inr (concat rows)))"

text \<open>\<open>Save\<close>: magic number, dimensions and max value on three lines, the check that every
  row has \<open>width\<close> samples, then the rows; another magic number than \<open>P2\<close> or \<open>P5\<close>
  writes the header alone.\<close>

definition PGM_Save :: "PGM \<Rightarrow> string result" where
  "PGM_Save pgm =
     (let header = PGM.magicNumber pgm @ [nl] @ show_int (PGM.width pgm) @ '' '' @
                   show_int (PGM.height pgm) @ [nl] @ show_nat (PGM.maxv pgm) @ [nl]
      in if \<exists>row \<in> set (PGM.data pgm). int (length row) \<noteq> PGM.width pgm
         then Inl InconsistentRowLength
         else if PGM.magicNumber pgm = ''P2''
         then thenE (saveP2PGM pgm) (\<lambda>body. Inr (header @ body))
         else if PGM.magicNumber pgm = ''P5''
         then thenE (saveP5PGM pgm) (\<lambda>body. Inr (header @ body))
         else Inr header)"

section \<open>PPM codec (PBM.go, second part)\<close>

text \<open>
  \<open>ReadPPM\<close> takes the first line as the magic number as it is, and ignores the results
  of \<open>Scan\<close> and \<open>Sscanf\<close>: an operand that was not scanned keeps its zero value.  The only
  failures are the panics of \<open>make\<close> on a negative size.
\<close>

definition scanned :: "'a list \<Rightarrow> nat \<Rightarrow> 'a \<Rightarrow> 'a" where
  "scanned vals k zero = (if k < length vals then vals ! k else zero)"

definition ScanE :: "Scanner \<Rightarrow> Scanner result" where
  "ScanE sc = (case Scan sc of None \<Rightarrow> Inl ScannerLineTooLong | Some sc' \<Rightarrow> Inr sc')"

fun ReadPPM_row :: "nat \<Rightarrow> Scanner \<Rightarrow> (Pixel list \<times> Scanner) result" where
  "ReadPPM_row 0 sc = Inr ([], sc)"
| "ReadPPM_row (Suc n) sc =
     thenE (ScanE sc) (\<lambda>sc.
       let vals = fst (Sscanf_uint8_3 (Text sc));
           p = \<lparr>R = word_of_nat (scanned vals 0 0), G = word_of_nat (scanned vals 1 0),
                B = word_of_nat (scanned vals 2 0)\<rparr>
       in thenE (ReadPPM_row n sc) (\<lambda>(ps, sc). Inr (p # ps, sc)))"

fun ReadPPM_rows :: "nat \<Rightarrow> int \<Rightarrow> Scanner \<Rightarrow> Pixel list list result" where
  "ReadPPM_rows 0 w sc = Inr []"
| "ReadPPM_rows (Suc n) w sc =
     (if w < 0 then Inl MakeSliceLenOutOfRange
      else thenE (ReadPPM_row (nat w) sc) (\<lambda>(row, sc).
           thenE (ReadPPM_rows n w sc) (\<lambda>rows. Inr (row # rows))))"

definition ReadPPM :: "string \<Rightarrow> PPM result" where
  "ReadPPM file =
     thenE (ScanE (NewScanner file)) (\<lambda>sc.
       let magicNumber = Text sc in
     thenE (ScanE sc) (\<lambda>sc.
       let dims = fst (Sscanf_int2 (Text sc));
           w = scanned dims 0 0; h = scanned dims 1 0 in
     thenE (ScanE sc) (\<lambda>sc.
       let mx = (case Sscanf_uint1 64 (Text sc) of None \<Rightarrow> 0 | Some m \<Rightarrow> m) in
       if h < 0 then Inl MakeSliceLenOutOfRange
       else thenE (ReadPPM_rows (nat h) w sc) (\<lambda>d.
              Inr \<lparr>PPM.data = d, width = w, height = h, magicNumber = magicNumber, maxv = mx\<rparr>))))"

definition PPM_Save :: "PPM \<Rightarrow> string result" where
  "PPM_Save ppm =
     (let header = PPM.magicNumber ppm @ [nl] @ show_int (PPM.width ppm) @ '' '' @
                   show_int (PPM.height ppm) @ [nl] @ show_nat (PPM.maxv ppm) @ [nl]
      in thenE (mapE (\<lambda>i.
                  thenE (mapE (\<lambda>j. thenE (get2 (PPM.data ppm) i j) (\<lambda>p.
                                 Inr (show_nat (unat (R p)) @ '' '' @ show_nat (unat (G p)) @ '' '' @
                                      show_nat (unat (B p)) @ [nl])))
                              (range_int 0 (PPM.width ppm)))
                    (\<lambda>cells. Inr (concat cells)))
                  (range_int 0 (PPM.height ppm)))
           (\<lambda>rows. Inr (header @ concat rows)))"

section \<open>The raster-shape invariant\<close>

text \<open>The stored \<open>height\<close> is the number of rows and every row has \<open>width\<close> samples.\<close>

definition raster_ok :: "int \<Rightarrow> int \<Rightarrow> 'a list list \<Rightarrow> bool" where
  "raster_ok w h d = (int (length d) = h \<and> list_all (\<lambda>row. int (length row) = w) d)"

definition PBM_ok :: "PBM \<Rightarrow> bool" where
  "PBM_ok pbm = raster_ok (PBM.width pbm) (PBM.height pbm) (PBM.data pbm)"

definition PGM_ok :: "PGM \<Rightarrow> bool" where
  "PGM_ok pgm = raster_ok (PGM.width pgm) (PGM.height pgm) (PGM.data pgm)"

definition PPM_ok :: "PPM \<Rightarrow> bool" where
  "PPM_ok ppm = raster_ok (PPM.width ppm) (PPM.height ppm) (PPM.data ppm)"

text \<open>The rotation as the specification words it: the new raster has \<open>w\<close> rows of \<open>h\<close>
  samples, and its row \<open>i\<close>, column \<open>j\<close> is the old row \<open>h-1-j\<close>, column \<open>i\<close>.\<close>

definition rotate_spec :: "nat \<Rightarrow> nat \<Rightarrow> 'a list list \<Rightarrow> 'a list list" where
  "rotate_spec w h d = map (\<lambda>i. map (\<lambda>j. d ! (h - 1 - j) ! i) [0..<h]) [0..<w]"

section \<open>Painting a list of addresses without clipping\<close>

text \<open>
  The drawing operations are compared with the following description of a drawing that
  clips nothing.  An address is a pair \<open>(x, y)\<close>.  \<open>in_canvas\<close>: the address is inside
  the raster.  \<open>repaint c as ppm\<close>: the image \<open>ppm\<close> in which the pixels at the addresses of
  \<open>as\<close> hold the colour \<open>c\<close>; every other pixel, the shape of the raster, width, height,
  magic number and max value are those of \<open>ppm\<close>.  \<open>paint_all c as ppm\<close>: that image if
  every address of \<open>as\<close> is inside the raster, the index-out-of-range panic if one is not.
\<close>

definition in_canvas :: "PPM \<Rightarrow> int \<Rightarrow> int \<Rightarrow> bool" where
  "in_canvas ppm x y =
     (0 \<le> y \<and> y < int (length (PPM.data ppm)) \<and>
      0 \<le> x \<and> x < int (length (PPM.data ppm ! nat y)))"

definition repaint :: "Pixel \<Rightarrow> (int \<times> int) list \<Rightarrow> PPM \<Rightarrow> PPM" where
  "repaint c as ppm =
     ppm\<lparr>PPM.data :=
           map (\<lambda>i. map (\<lambda>j. if (int j, int i) \<in> set as then c else PPM.data ppm ! i ! j)
                        [0..<length (PPM.data ppm ! i)])
               [0..<length (PPM.data ppm)]\<rparr>"

definition paint_all :: "Pixel \<Rightarrow> (int \<times> int) list \<Rightarrow> PPM \<Rightarrow> PPM result" where
  "paint_all c as ppm =
     (if list_all (\<lambda>(x, y). in_canvas ppm x y) as then Inr (repaint c as ppm)
      else Inl IndexOutOfRange)"

text \<open>
  The bound on coordinates and sizes under which the theorems about drawing are stated.
  Below it every \<open>int\<close> that the drawing code converts to float64 is less than \<open>2^53\<close> in
  magnitude, every float64 that it converts back is less than \<open>2^63\<close>, and no sum or
  product of \<open>int\<close>s leaves 64 bits, so the exact conversions and the unbounded integers
  of this model are those of Go.
\<close>

definition coord :: "int \<Rightarrow> bool" where
  "coord i = (\<bar>i\<bar> \<le> 2 ^ 24)"

definition coords :: "Point \<Rightarrow> bool" where
  "coords p = (coord (X p) \<and> coord (Y p))"

section \<open>Three small images\<close>

definition example_pbm :: PBM where
  "example_pbm = \<lparr>PBM.data = [[True, False, False], [False, True, True]],
                  width = 3, height = 2, magicNumber = ''P1''\<rparr>"

definition example_pgm :: PGM where
  "example_pgm = \<lparr>PGM.data = [[0, 100, 200], [3, 128, 255]],
                  width = 3, height = 2, magicNumber = ''P2'', maxv = 255\<rparr>"

definition example_ppm :: PPM where
  "example_ppm = \<lparr>PPM.data = [[\<lparr>R = 1, G = 2, B = 3\<rparr>, \<lparr>R = 4, G = 5, B = 6\<rparr>, \<lparr>R = 7, G = 8, B = 9\<rparr>],
                               [\<lparr>R = 200, G = 200, B = 200\<rparr>, \<lparr>R = 0, G = 0, B = 0\<rparr>,
                                \<lparr>R = 255, G = 0, B = 0\<rparr>]],
                  width = 3, height = 2, magicNumber = ''P3'', maxv = 255\<rparr>"

section \<open>Basic facts about failures and checked access\<close>

declare PGM_Flip_row.simps [simp del] TrimLeft.simps [simp del] TrimRight.simps [simp del]
  Fields_from.simps [simp del] show_nat.simps [simp del] SkipSpace.simps [simp del]
  ReadString_from.simps [simp del]

lemma thenE_Inr [simp]: "thenE (Inr v) f = f v"
  by (simp add: thenE_def)

lemma thenE_Inl [simp]: "thenE (Inl e) f = Inl e"
  by (simp add: thenE_def)

lemma thenE_return [simp]: "thenE m Inr = m"
  by (cases m) simp_all

lemma idx_in_range: "0 \<le> i \<Longrightarrow> i < int (length xs) \<Longrightarrow> idx xs i = Inr (xs ! nat i)"
  by (simp add: idx_def)

lemma upd_in_range: "0 \<le> i \<Longrightarrow> i < int (length xs) \<Longrightarrow> upd xs i v = Inr (xs[nat i := v])"
  by (simp add: upd_def)

lemma trunc_of_int [simp]: "trunc (of_int i) = i"
  by (simp add: trunc_def)

lemma trunc_zero [simp]: "trunc 0 = 0"
  by (simp add: trunc_def)

lemma toInt_float64 [simp]: "toInt (float64 i) = Inr i"
  by (simp add: float64_def)

section \<open>Rounding to binary64\<close>

text \<open>
  What the proofs below need of \<open>round64\<close>: it leaves an integer of magnitude at most
  \<open>2^53\<close> as it is, it does not carry a value across such an integer (\<open>round64_between\<close>),
  the rounded quotient of two small naturals has the integer part of the exact quotient
  (\<open>round64_quotient\<close>), and a value is determined by its exponent and its significand
  (\<open>round64_eqI\<close>), which evaluates \<open>round64\<close> at a given number.
\<close>

lemma bitlen_powi:
  assumes "0 < n"
  shows "2 powi (bitlen n - 1) \<le> (of_int n :: rat)" and "(of_int n :: rat) < 2 powi (bitlen n)"
proof -
  have b: "1 \<le> bitlen n" using assms by (simp add: bitlen_alt_def)
  have "2 ^ nat (bitlen n - 1) \<le> n" "n < 2 ^ nat (bitlen n)"
    using bitlen_bounds [OF assms] by simp_all
  then have "(of_int (2 ^ nat (bitlen n - 1)) :: rat) \<le> of_int n"
    and "(of_int n :: rat) < of_int (2 ^ nat (bitlen n))"
    by (simp_all only: of_int_le_iff of_int_less_iff)
  then show "2 powi (bitlen n - 1) \<le> (of_int n :: rat)" and "(of_int n :: rat) < 2 powi (bitlen n)"
    using b by (simp_all add: power_int_def)
qed

lemma ilog2_bounds:
  assumes "0 < a"
  shows "2 powi (ilog2 a) \<le> a" and "a < 2 powi (ilog2 a + 1)"
proof -
  obtain n d where nd: "quotient_of a = (n, d)" by (cases "quotient_of a")
  have d: "0 < d" using quotient_of_denom_pos [OF nd] .
  have a: "a = of_int n / of_int d" using quotient_of_div [OF nd] .
  have n: "0 < n" using assms a d by (simp add: zero_less_divide_iff)
  define e where "e = bitlen n - bitlen d"
  define D where "D = (of_int d :: rat)"
  define N where "N = (of_int n :: rat)"
  have Dpos: "0 < D" using d by (simp add: D_def)
  have p: "(0::rat) < 2 powi k" for k by (simp add: zero_less_power_int)
  have up: "2 powi (e + 1) * 2 powi (bitlen d - 1) = (2::rat) powi (bitlen n)"
    by (simp add: e_def flip: power_int_add)
  have lo: "2 powi (e - 1) * 2 powi (bitlen d) = (2::rat) powi (bitlen n - 1)"
    by (simp add: e_def flip: power_int_add)
  have "N < 2 powi (bitlen n)" using bitlen_powi(2) [OF n] by (simp add: N_def)
  also have "\<dots> = 2 powi (e + 1) * 2 powi (bitlen d - 1)" using up by simp
  also have "\<dots> \<le> 2 powi (e + 1) * D"
    using bitlen_powi(1) [OF d] p [of "e + 1"] by (simp add: D_def)
  finally have upper: "a < 2 powi (e + 1)"
    using Dpos by (simp add: a N_def D_def pos_divide_less_eq)
  have "2 powi (e - 1) * D < 2 powi (e - 1) * 2 powi (bitlen d)"
    using bitlen_powi(2) [OF d] p [of "e - 1"] by (simp add: D_def)
  also have "\<dots> = 2 powi (bitlen n - 1)" using lo by simp
  also have "\<dots> \<le> N" using bitlen_powi(1) [OF n] by (simp add: N_def)
  finally have lower: "2 powi (e - 1) < a"
    using Dpos by (simp add: a N_def D_def pos_less_divide_eq)
  have il: "ilog2 a = (if 2 powi e \<le> a then e else e - 1)"
    by (simp add: ilog2_def nd e_def Let_def)
  show "2 powi (ilog2 a) \<le> a" using il lower by (auto simp: less_imp_le)
  show "a < 2 powi (ilog2 a + 1)" using il upper by (auto simp: not_le)
qed

lemma ilog2_le:
  assumes "0 < a" and "a < 2 powi k"
  shows "ilog2 a < k"
proof -
  have "(2::rat) powi (ilog2 a) < 2 powi k"
    using ilog2_bounds(1) [OF assms(1)] assms(2) by simp
  then show ?thesis
    by (metis not_less power_int_increasing one_le_numeral)
qed

lemma ilog2_ge:
  assumes "0 < a" and "2 powi k \<le> a"
  shows "k \<le> ilog2 a"
proof -
  have "(2::rat) powi k < 2 powi (ilog2 a + 1)"
    using ilog2_bounds(2) [OF assms(1)] assms(2) by simp
  then have "k < ilog2 a + 1"
    by (metis not_less power_int_increasing one_le_numeral)
  then show ?thesis by simp
qed

lemma round_even_le: "r \<le> of_int n \<Longrightarrow> round_even r \<le> n"
proof -
  assume r: "r \<le> of_int n"
  have f: "\<lfloor>r\<rfloor> \<le> n" using r by (simp add: floor_le_iff)
  show ?thesis
  proof (cases "\<lfloor>r\<rfloor> = n")
    case True
    then have "r = of_int \<lfloor>r\<rfloor>" using r by (metis of_int_floor_le order_antisym)
    then have "r - of_int \<lfloor>r\<rfloor> = 0" by simp
    then show ?thesis using True by (simp add: round_even_def Let_def)
  next
    case False
    then have "\<lfloor>r\<rfloor> + 1 \<le> n" using f by simp
    then show ?thesis using f by (simp add: round_even_def Let_def)
  qed
qed

lemma round_even_ge: "of_int n \<le> r \<Longrightarrow> n \<le> round_even r"
proof -
  assume "of_int n \<le> r"
  then have "n \<le> \<lfloor>r\<rfloor>" by (simp add: le_floor_iff)
  then show ?thesis by (simp add: round_even_def Let_def)
qed

lemma round_even_of_int [simp]: "round_even (of_int n) = n"
  by (simp add: round_even_def)

lemma round64_pos:
  assumes "0 < a"
  shows "round64 a =
     (let u = 2 powi (max (ilog2 a) (- 1022) - 52);
          r = of_int (round_even (a / u)) * u
      in if 2 powi 1024 \<le> r then PInf else Fin r)"
  using assms by (simp add: round64_def Let_def fsigned_inf_def)

lemma round64_minus: "round64 (- q) = (case round64 q of Fin r \<Rightarrow> Fin (- r) | PInf \<Rightarrow> NInf | NInf \<Rightarrow> PInf | NaN \<Rightarrow> NaN)"
  by (cases "q = 0"; cases "q < 0") (auto simp: round64_def Let_def fsigned_inf_def)

lemma lattice_le:
  assumes "(0::rat) < u" and "a \<le> of_int n * u"
  shows "of_int (round_even (a / u)) * u \<le> of_int n * u"
proof -
  have "a / u \<le> of_int n" using assms by (simp add: pos_divide_le_eq)
  then have "round_even (a / u) \<le> n" by (rule round_even_le)
  then have "(of_int (round_even (a / u)) :: rat) \<le> of_int n" by (simp only: of_int_le_iff)
  then show ?thesis using assms(1) by simp
qed

lemma lattice_ge:
  assumes "(0::rat) < u" and "of_int n * u \<le> a"
  shows "of_int n * u \<le> of_int (round_even (a / u)) * u"
proof -
  have "of_int n \<le> a / u" using assms by (simp add: pos_le_divide_eq)
  then have "n \<le> round_even (a / u)" by (rule round_even_ge)
  then have "(of_int n :: rat) \<le> of_int (round_even (a / u))" by (simp only: of_int_le_iff)
  then show ?thesis using assms(1) by simp
qed

lemma int_lattice:
  assumes "e \<le> 52"
  shows "\<exists>n. (of_int k :: rat) = of_int n * 2 powi (e - 52)"
proof -
  have "(2::rat) powi (e - 52) = 1 / 2 ^ nat (52 - e)"
    using assms by (simp add: power_int_def inverse_eq_divide power_one_over [symmetric])
  then have "(of_int k :: rat) = of_int (k * 2 ^ nat (52 - e)) * 2 powi (e - 52)" by simp
  then show ?thesis ..
qed

lemma round64_pos_between:
  assumes a: "0 < a" and lo: "of_int lo \<le> a" and hi: "a \<le> of_int hi" and hi53: "hi \<le> 2 ^ 53"
  shows "\<exists>r. round64 a = Fin r \<and> 0 \<le> r \<and> of_int lo \<le> r \<and> r \<le> of_int hi"
proof -
  define e where "e = max (ilog2 a) (- 1022)"
  define u :: rat where "u = 2 powi (e - 52)"
  define r where "r = of_int (round_even (a / u)) * u"
  have u: "0 < u" by (simp add: u_def zero_less_power_int)
  have r0: "0 \<le> r"
    using lattice_ge [OF u, of 0 a] a by (simp add: r_def)
  have big: "(of_int hi :: rat) \<le> 2 ^ 53"
    using hi53 by (metis of_int_le_iff of_int_numeral of_int_power)
  have "of_int lo \<le> r \<and> r \<le> of_int hi"
  proof (cases "e \<le> 52")
    case True
    obtain nh where nh: "(of_int hi :: rat) = of_int nh * u"
      using int_lattice [OF True, of hi] unfolding u_def by blast
    obtain nl where nl: "(of_int lo :: rat) = of_int nl * u"
      using int_lattice [OF True, of lo] unfolding u_def by blast
    have "r \<le> of_int nh * u"
      unfolding r_def using hi nh by (intro lattice_le [OF u]) simp
    moreover have "of_int nl * u \<le> r"
      unfolding r_def using lo nl by (intro lattice_ge [OF u]) simp
    ultimately show ?thesis
      using nh nl by simp
  next
    case False
    then have e: "e = ilog2 a" "53 \<le> ilog2 a" by (simp_all add: e_def max_def split: if_splits)
    have "(2::rat) powi 53 \<le> 2 powi (ilog2 a)" using e(2) by (intro power_int_increasing) simp_all
    also have "\<dots> \<le> a" by (rule ilog2_bounds(1) [OF a])
    finally have "2 ^ 53 \<le> a" by simp
    with hi big have a53: "a = 2 ^ 53" and h: "(of_int hi :: rat) = 2 ^ 53" by simp_all
    have "a < 2 powi 54" by (simp add: a53)
    then have "ilog2 a < 54" by (rule ilog2_le [OF a])
    with e have e53: "e = 53" by simp
    have "r = 2 ^ 53"
    proof -
      have "a / u = of_int (2 ^ 52)" by (simp add: a53 u_def e53)
      then have "round_even (a / u) = 2 ^ 52" by (simp only: round_even_of_int)
      then show ?thesis by (simp add: r_def u_def e53)
    qed
    then show ?thesis using lo h a53 by simp
  qed
  moreover have "r < 2 powi 1024"
  proof -
    have "r \<le> 2 ^ 53" using \<open>of_int lo \<le> r \<and> r \<le> of_int hi\<close> big by simp
    also have "(2::rat) ^ 53 < 2 ^ 1024" by (rule power_strict_increasing) simp_all
    finally show ?thesis by simp
  qed
  ultimately show ?thesis
    using r0 by (simp add: round64_pos [OF a] Let_def e_def [symmetric] u_def [symmetric] r_def [symmetric])
qed

lemma round64_between:
  assumes lo: "of_int lo \<le> q" and hi: "q \<le> of_int hi"
    and lo53: "- (2 ^ 53) \<le> lo" and hi53: "hi \<le> 2 ^ 53"
  shows "\<exists>r. round64 q = Fin r \<and> of_int lo \<le> r \<and> r \<le> of_int hi"
proof -
  consider "q = 0" | "0 < q" | "q < 0" by linarith
  then show ?thesis
  proof cases
    case 1
    then show ?thesis using lo hi by (simp add: round64_def)
  next
    case 2
    show ?thesis using round64_pos_between [OF 2 lo hi hi53] by blast
  next
    case 3
    then have a: "0 < - q" by simp
    have 1: "rat_of_int (- hi) \<le> - q" "- q \<le> rat_of_int (- lo)" "- lo \<le> 2 ^ 53"
      using lo hi lo53 by simp_all
    from round64_pos_between [OF a 1] obtain r
      where r: "round64 (- q) = Fin r" "of_int (- hi) \<le> r" "r \<le> of_int (- lo)" by blast
    have "round64 q = Fin (- r)"
      using round64_minus [of "- q"] r(1) by simp
    then show ?thesis using r(2,3) by simp
  qed
qed

lemma round64_of_int:
  assumes "\<bar>i\<bar> \<le> 2 ^ 53"
  shows "round64 (of_int i) = Fin (of_int i)"
proof -
  have "- (2 ^ 53) \<le> i" "i \<le> 2 ^ 53" using assms by simp_all
  from round64_between [OF order_refl order_refl this]
  show ?thesis by auto
qed

lemma round64_numeral [simp]:
  "numeral n \<le> (2 ^ 53 :: int) \<Longrightarrow> round64 (numeral n) = Fin (numeral n)"
  "numeral n \<le> (2 ^ 53 :: int) \<Longrightarrow> round64 (- numeral n) = Fin (- numeral n)"
  "round64 0 = Fin 0" "round64 1 = Fin 1" "round64 (- 1) = Fin (- 1)"
  using round64_of_int [of "numeral n"] round64_of_int [of "- numeral n"]
    round64_of_int [of 0] round64_of_int [of 1] round64_of_int [of "- 1"]
  by simp_all

lemma round64_pos_less:
  assumes a: "0 < a" and hi: "a + 2 powi (max (ilog2 a) (- 1022) - 52) \<le> of_int hi"
    and hi53: "hi \<le> 2 ^ 53"
  shows "\<exists>r. round64 a = Fin r \<and> r < of_int hi"
proof -
  define e where "e = max (ilog2 a) (- 1022)"
  define u :: rat where "u = 2 powi (e - 52)"
  define r where "r = of_int (round_even (a / u)) * u"
  have u: "0 < u" by (simp add: u_def zero_less_power_int)
  have ah: "a < of_int hi" using hi u unfolding u_def e_def by linarith
  have big: "(of_int hi :: rat) \<le> 2 ^ 53"
    using hi53 by (metis of_int_le_iff of_int_numeral of_int_power)
  have "a < 2 powi 53" using ah big by simp
  then have "ilog2 a < 53" by (rule ilog2_le [OF a])
  then have e52: "e \<le> 52" by (simp add: e_def)
  obtain nh where nh: "(of_int hi :: rat) = of_int nh * u"
    using int_lattice [OF e52, of hi] unfolding u_def by blast
  have "a \<le> of_int (nh - 1) * u"
    using hi nh by (simp add: u_def e_def algebra_simps)
  then have "r \<le> of_int (nh - 1) * u"
    unfolding r_def by (rule lattice_le [OF u])
  also have "\<dots> < of_int hi" using nh u by (simp add: algebra_simps)
  finally have rh: "r < of_int hi" .
  have "r < 2 ^ 53" using rh big by simp
  also have "(2::rat) ^ 53 < 2 ^ 1024" by (rule power_strict_increasing) simp_all
  finally have "r < 2 powi 1024" by simp
  then show ?thesis
    using rh by (simp add: round64_pos [OF a] Let_def e_def [symmetric] u_def [symmetric] r_def [symmetric])
qed

lemma round64_quotient:
  fixes p old :: nat
  assumes old: "0 < old" and p: "p \<le> 2 ^ 52"
  shows "\<exists>r. round64 (of_nat p / of_nat old) = Fin r \<and> trunc r = int (p div old)"
proof (cases "p = 0")
  case True
  then show ?thesis by (simp add: round64_def trunc_def)
next
  case False
  define a :: rat where "a = of_nat p / of_nat old"
  define k where "k = int (p div old)"
  define e where "e = max (ilog2 a) (- 1022)"
  have a: "0 < a" using False old by (simp add: a_def)
  have O: "(0::rat) < of_nat old" using old by simp
  have lo: "of_int k \<le> a"
  proof -
    have "p div old * old \<le> p" by simp
    then have "(of_nat (p div old * old) :: rat) \<le> of_nat p" by (simp only: of_nat_le_iff)
    then show ?thesis using O by (simp add: a_def k_def pos_le_divide_eq)
  qed
  have hi1: "a + 1 / of_nat old \<le> of_int (k + 1)"
  proof -
    have "p < (p div old + 1) * old" using old by (simp add: dividend_less_div_times)
    then have "p + 1 \<le> (p div old + 1) * old" by simp
    then have "(of_nat (p + 1) :: rat) \<le> of_nat ((p div old + 1) * old)" by (simp only: of_nat_le_iff)
    then have "(of_nat p + 1) / of_nat old \<le> (of_int (k + 1) :: rat)"
      using O by (simp add: k_def pos_divide_le_eq algebra_simps)
    then show ?thesis by (simp add: a_def add_divide_distrib)
  qed
  have k53: "k + 1 \<le> 2 ^ 53"
  proof -
    have "p div old \<le> p" by simp
    then have "p div old \<le> 2 ^ 52" using p by (rule order_trans)
    then have "k \<le> 2 ^ 52" unfolding k_def by (metis of_nat_le_iff of_nat_numeral of_nat_power)
    then show ?thesis by simp
  qed
  have step: "a + 2 powi (e - 52) \<le> of_int (k + 1)"
  proof (cases "- 1022 \<le> ilog2 a")
    case True
    then have e: "e = ilog2 a" by (simp add: e_def)
    have "(2::rat) powi (e - 52) = 2 powi e / 2 ^ 52" by (simp add: power_int_diff)
    also have "\<dots> \<le> a / 2 ^ 52"
      using ilog2_bounds(1) [OF a] by (simp add: e divide_right_mono)
    also have "\<dots> = (of_nat p / 2 ^ 52) / of_nat old" by (simp add: a_def)
    also have "\<dots> \<le> 1 / of_nat old"
    proof -
      have "(of_nat p :: rat) \<le> of_nat (2 ^ 52)" using p by (simp only: of_nat_le_iff)
      then have "(of_nat p :: rat) / 2 ^ 52 \<le> 1" by simp
      moreover have "(0::rat) \<le> of_nat old" by simp
      ultimately show ?thesis by (rule divide_right_mono)
    qed
    finally show ?thesis using hi1 by simp
  next
    case False
    then have e: "e = - 1022" by (simp add: e_def)
    have "a < 2 powi (ilog2 a + 1)" by (rule ilog2_bounds(2) [OF a])
    also have "\<dots> \<le> 2 powi (- 1022)" using False by (intro power_int_increasing) simp_all
    also have "\<dots> \<le> 1 / 2" by (simp add: power_int_minus_divide)
    finally have "a < 1 / 2" .
    moreover have "(2::rat) powi (e - 52) \<le> 1 / 2" by (simp add: e power_int_minus_divide)
    moreover have "(1::rat) \<le> of_int (k + 1)" by (simp add: k_def)
    ultimately show ?thesis by linarith
  qed
  have "\<exists>r. round64 a = Fin r \<and> r < of_int (k + 1)"
    using step by (intro round64_pos_less [OF a _ k53]) (simp add: e_def)
  then obtain r where r: "round64 a = Fin r" "r < of_int (k + 1)" by blast
  have "a \<le> of_int (k + 1)" using hi1 O by (smt (verit) divide_nonneg_pos le_add_same_cancel1 order_trans zero_le_one less_imp_le)
  from round64_pos_between [OF a lo this k53] r(1) have r2: "0 \<le> r" "of_int k \<le> r" by auto
  have "\<lfloor>r\<rfloor> = k" using r(2) r2(2) by (simp add: floor_unique)
  then have "trunc r = k" using r2(1) by (simp add: trunc_def)
  then show ?thesis using r(1) by (simp add: a_def k_def)
qed

lemma round_even_near:
  assumes "\<bar>r - of_int m\<bar> < 1 / 2 \<or> (\<bar>r - of_int m\<bar> = 1 / 2 \<and> even m)"
  shows "round_even r = m"
proof (cases "of_int m \<le> r")
  case True
  then have f: "\<lfloor>r\<rfloor> = m" using assms by (intro floor_unique) auto
  show ?thesis using assms True by (auto simp: round_even_def Let_def f)
next
  case False
  then have f: "\<lfloor>r\<rfloor> = m - 1" using assms by (intro floor_unique) auto
  show ?thesis using assms False by (auto simp: round_even_def Let_def f)
qed

lemma round64_eqI:
  assumes q: "0 < q" and lo: "2 powi e \<le> q" and hi: "q < 2 powi (e + 1)"
    and e: "- 1022 \<le> e" "e \<le> 1022"
    and m: "\<bar>q / 2 powi (e - 52) - of_int m\<bar> < 1 / 2 \<or>
            (\<bar>q / 2 powi (e - 52) - of_int m\<bar> = 1 / 2 \<and> even m)"
  shows "round64 q = Fin (of_int m * 2 powi (e - 52))"
proof -
  define u :: rat where "u = 2 powi (e - 52)"
  have u: "0 < u" by (simp add: u_def zero_less_power_int)
  have "e \<le> ilog2 q" using q lo by (rule ilog2_ge)
  moreover have "ilog2 q < e + 1" using q hi by (rule ilog2_le)
  ultimately have il: "max (ilog2 q) (- 1022) = e" using e(1) by simp
  have re: "round_even (q / u) = m" using m unfolding u_def by (rule round_even_near)
  have "(2::rat) powi (53 + (e - 52)) = 2 powi 53 * 2 powi (e - 52)"
    by (rule power_int_add) simp
  moreover have "53 + (e - 52) = e + 1" by simp
  ultimately have "2 powi (e + 1) = (2 ^ 53 :: rat) * u" by (simp add: u_def)
  then have "q < 2 ^ 53 * u" using hi by simp
  then have "q / u \<le> of_int (2 ^ 53)" using u by (simp add: pos_divide_le_eq)
  then have "round_even (q / u) \<le> 2 ^ 53" by (rule round_even_le)
  then have "(of_int m :: rat) \<le> 2 ^ 53"
    unfolding re by (metis of_int_le_iff of_int_numeral of_int_power)
  then have "of_int m * u \<le> 2 ^ 53 * u" using u by simp
  also have "\<dots> = 2 powi (e + 1)" using \<open>2 powi (e + 1) = (2 ^ 53 :: rat) * u\<close> by simp
  also have "\<dots> \<le> 2 powi 1023" using e(2) by (intro power_int_increasing) simp_all
  also have "\<dots> < 2 powi 1024" by (intro power_int_strict_increasing) simp_all
  finally have "\<not> 2 powi 1024 \<le> of_int m * u" by simp
  then show ?thesis
    using q by (simp add: round64_def Let_def il re u_def [symmetric])
qed

lemma round64_step:
  assumes "\<bar>q\<bar> \<le> of_int K" and "K \<le> 2 ^ 53"
  shows "\<exists>r. round64 q = Fin r \<and> \<bar>r\<bar> \<le> of_int K"
proof -
  have "of_int (- K) \<le> q" "q \<le> of_int K" "- (2 ^ 53) \<le> - K"
    using assms by simp_all
  from round64_between [OF this(1,2,3) assms(2)] show ?thesis by auto
qed

lemma trunc_abs_le: "\<bar>x\<bar> \<le> of_int K \<Longrightarrow> \<bar>trunc x\<bar> \<le> K"
  unfolding trunc_def by (auto simp: floor_le_iff ceiling_le_iff le_floor_iff le_ceiling_iff abs_le_iff) linarith+

lemma trunc_unit: "0 \<le> x \<Longrightarrow> x < 1 \<Longrightarrow> trunc x = 0"
  by (simp add: trunc_def floor_unique)

lemma trunc_numeral: "trunc (numeral n) = numeral n" "trunc 1 = 1"
  by (simp_all add: trunc_def)

section \<open>DrawLine\<close>

lemma DrawLine_loop_done [simp]: "DrawLine_loop 0 x y xi yi c = Inr"
  by (rule ext) simp

lemma DrawLine_same_point: "DrawLine p p c ppm = Set (X p) (Y p) c ppm"
  by (simp add: DrawLine_def float64_def)

lemma Set_in_bounds:
  assumes "0 \<le> y" "y < int (length (PPM.data ppm))"
    and "0 \<le> x" "x < int (length (PPM.data ppm ! nat y))"
  shows "Set x y c ppm =
    Inr (ppm\<lparr>PPM.data := (PPM.data ppm)[nat y := (PPM.data ppm ! nat y)[nat x := c]]\<rparr>)"
  using assms by (simp add: Set_def idx_in_range upd_in_range)

lemma Set_out_of_bounds:
  assumes "\<not> (0 \<le> y \<and> y < int (length (PPM.data ppm)) \<and>
             0 \<le> x \<and> x < int (length (PPM.data ppm ! nat y)))"
  shows "Set x y c ppm = Inl IndexOutOfRange"
  using assms by (auto simp add: Set_def idx_def upd_def)

text \<open>
  Claim C3.  \<open>DrawLine((0,0),(3,3), red)\<close> on a 4 by 4 canvas filled with one background
  colour returns the canvas whose four diagonal pixels are red and whose other twelve
  pixels still hold the background; width, height, magic number and max value are kept.
  Here \<open>dx = dy = steps = 3\<close> and both increments are exactly 1.
\<close>

theorem DrawLine_diagonal_4x4:
  "DrawLine \<lparr>X = 0, Y = 0\<rparr> \<lparr>X = 3, Y = 3\<rparr> red
     \<lparr>PPM.data = replicate 4 (replicate 4 bg), width = 4, height = 4,
      magicNumber = m, maxv = mx\<rparr>
   = Inr \<lparr>PPM.data = [[red, bg, bg, bg], [bg, red, bg, bg], [bg, bg, red, bg], [bg, bg, bg, red]],
          width = 4, height = 4, magicNumber = m, maxv = mx\<rparr>"
  by (simp add: DrawLine_def float64_def Let_def trunc_def Set_def idx_def upd_def numeral_eq_Suc)

text \<open>
  Claim C4, as amended.  \<open>DrawLine(p, p, c)\<close> is exactly one call \<open>Set(p.X, p.Y, c)\<close>, for
  every point \<open>p\<close>.  There is no guard on \<open>steps == 0\<close>: both increments are the float64
  quotient \<open>0/0\<close>, which is NaN and raises nothing, and the loop body runs once before
  the NaN is added to the position.  So for every \<open>p\<close> inside the raster the result is
  the canvas with the pixel \<open>p\<close> set to \<open>c\<close> and nothing else changed.
\<close>

theorem DrawLine_degenerate:
  "DrawLine p p c ppm = Set (X p) (Y p) c ppm \<and>
   fdiv (float64 (X p - X p)) (float64 0) = NaN \<and>
   (0 \<le> Y p \<and> Y p < int (length (PPM.data ppm)) \<and>
    0 \<le> X p \<and> X p < int (length (PPM.data ppm ! nat (Y p))) \<longrightarrow>
    DrawLine p p c ppm =
      Inr (ppm\<lparr>PPM.data :=
             (PPM.data ppm)[nat (Y p) := (PPM.data ppm ! nat (Y p))[nat (X p) := c]]\<rparr>))"
  by (simp add: DrawLine_same_point Set_in_bounds float64_def)

theorem DrawLine_degenerate_witness:
  "DrawLine \<lparr>X = 1, Y = 0\<rparr> \<lparr>X = 1, Y = 0\<rparr> \<lparr>R = 255, G = 0, B = 0\<rparr>
     \<lparr>PPM.data = [[\<lparr>R = 0, G = 0, B = 0\<rparr>, \<lparr>R = 0, G = 0, B = 0\<rparr>]], width = 2, height = 1,
      magicNumber = ''P3'', maxv = 255\<rparr>
   = Inr \<lparr>PPM.data = [[\<lparr>R = 0, G = 0, B = 0\<rparr>, \<lparr>R = 255, G = 0, B = 0\<rparr>]], width = 2,
          height = 1, magicNumber = ''P3'', maxv = 255\<rparr>"
  using DrawLine_degenerate [of "\<lparr>X = 1, Y = 0\<rparr>" "\<lparr>R = 255, G = 0, B = 0\<rparr>"
     "\<lparr>PPM.data = [[\<lparr>R = 0, G = 0, B = 0\<rparr>, \<lparr>R = 0, G = 0, B = 0\<rparr>]], width = 2, height = 1,
      magicNumber = ''P3'', maxv = 255\<rparr>"]
  by (simp add: Set_def idx_def upd_def)

text \<open>
  Claim C4 as stated, for every point: at the point \<open>(5,5)\<close> of a 2 by 2 canvas the single
  \<open>Set\<close> indexes \<open>data[5]\<close> and the call fails; no pixel is drawn.
\<close>

theorem DrawLine_degenerate_outside:
  "DrawLine \<lparr>X = 5, Y = 5\<rparr> \<lparr>X = 5, Y = 5\<rparr> \<lparr>R = 255, G = 0, B = 0\<rparr>
     \<lparr>PPM.data = replicate 2 (replicate 2 \<lparr>R = 0, G = 0, B = 0\<rparr>), width = 2, height = 2,
      magicNumber = ''P3'', maxv = 255\<rparr>
   = Inl IndexOutOfRange"
  by (simp add: DrawLine_same_point Set_def idx_def)

text \<open>
  The increments are rounded quotients and every step rounds again.  From \<open>(0,0)\<close> to
  \<open>(1,10)\<close> the x increment is the float64 nearest to \<open>1/10\<close>, and ten additions of it
  give \<open>0.9999999999999999\<close>, not 1: the eleven pixels are all in column 0, the last
  one is \<open>(0,10)\<close>, and the line fits a canvas that is one pixel wide.
\<close>

lemma round64_tenth: "round64 (1 / 10) = Fin (3602879701896397 / 36028797018963968)"
  using round64_eqI [of "1 / 10" "- 4" 7205759403792794] by simp

lemma line_step_0:
  "fadd (Fin (0)) (Fin (3602879701896397 / 36028797018963968)) = Fin (3602879701896397 / 36028797018963968)"
    using round64_eqI [of "0 + 3602879701896397 / 36028797018963968" "- 4" 7205759403792794] by simp

lemma line_step_1:
  "fadd (Fin (3602879701896397 / 36028797018963968)) (Fin (3602879701896397 / 36028797018963968)) = Fin (3602879701896397 / 18014398509481984)"
    using round64_eqI [of "3602879701896397 / 36028797018963968 + 3602879701896397 / 36028797018963968" "- 3" 7205759403792794] by simp

lemma line_step_2:
  "fadd (Fin (3602879701896397 / 18014398509481984)) (Fin (3602879701896397 / 36028797018963968)) = Fin (1351079888211149 / 4503599627370496)"
    using round64_eqI [of "3602879701896397 / 18014398509481984 + 3602879701896397 / 36028797018963968" "- 2" 5404319552844596] by simp

lemma line_step_3:
  "fadd (Fin (1351079888211149 / 4503599627370496)) (Fin (3602879701896397 / 36028797018963968)) = Fin (3602879701896397 / 9007199254740992)"
    using round64_eqI [of "1351079888211149 / 4503599627370496 + 3602879701896397 / 36028797018963968" "- 2" 7205759403792794] by simp

lemma line_step_4:
  "fadd (Fin (3602879701896397 / 9007199254740992)) (Fin (3602879701896397 / 36028797018963968)) = Fin (1 / 2)"
    using round64_eqI [of "3602879701896397 / 9007199254740992 + 3602879701896397 / 36028797018963968" "- 1" 4503599627370496] by simp

lemma line_step_5:
  "fadd (Fin (1 / 2)) (Fin (3602879701896397 / 36028797018963968)) = Fin (5404319552844595 / 9007199254740992)"
    using round64_eqI [of "1 / 2 + 3602879701896397 / 36028797018963968" "- 1" 5404319552844595] by simp

lemma line_step_6:
  "fadd (Fin (5404319552844595 / 9007199254740992)) (Fin (3602879701896397 / 36028797018963968)) = Fin (3152519739159347 / 4503599627370496)"
    using round64_eqI [of "5404319552844595 / 9007199254740992 + 3602879701896397 / 36028797018963968" "- 1" 6305039478318694] by simp

lemma line_step_7:
  "fadd (Fin (3152519739159347 / 4503599627370496)) (Fin (3602879701896397 / 36028797018963968)) = Fin (7205759403792793 / 9007199254740992)"
    using round64_eqI [of "3152519739159347 / 4503599627370496 + 3602879701896397 / 36028797018963968" "- 1" 7205759403792793] by simp

lemma line_step_8:
  "fadd (Fin (7205759403792793 / 9007199254740992)) (Fin (3602879701896397 / 36028797018963968)) = Fin (2026619832316723 / 2251799813685248)"
    using round64_eqI [of "7205759403792793 / 9007199254740992 + 3602879701896397 / 36028797018963968" "- 1" 8106479329266892] by simp

lemma line_step_9:
  "fadd (Fin (2026619832316723 / 2251799813685248)) (Fin (3602879701896397 / 36028797018963968)) = Fin (9007199254740991 / 9007199254740992)"
    using round64_eqI [of "2026619832316723 / 2251799813685248 + 3602879701896397 / 36028797018963968" "- 1" 9007199254740991] by simp


lemma fadd_unit_steps:
  "fadd (Fin 0) (Fin 1) = Fin 1" "fadd (Fin 1) (Fin 1) = Fin 2"
  "fadd (Fin (numeral n)) (Fin 1) = round64 (numeral n + 1)"
  by simp_all

lemmas line_steps = line_step_0 line_step_1 line_step_2 line_step_3 line_step_4 line_step_5
  line_step_6 line_step_7 line_step_8 line_step_9

lemma DrawLine_steep:
  "DrawLine \<lparr>X = 0, Y = 0\<rparr> \<lparr>X = 1, Y = 10\<rparr> c
     \<lparr>PPM.data = replicate 11 [bg], width = 1, height = 11, magicNumber = m, maxv = mx\<rparr>
   = Inr \<lparr>PPM.data = replicate 11 [c], width = 1, height = 11, magicNumber = m, maxv = mx\<rparr>"
  "DrawLine \<lparr>X = 0, Y = 0\<rparr> \<lparr>X = 1, Y = 10\<rparr> c
     \<lparr>PPM.data = replicate 11 [bg, bg], width = 2, height = 11, magicNumber = m, maxv = mx\<rparr>
   = Inr \<lparr>PPM.data = replicate 11 [c, bg], width = 2, height = 11, magicNumber = m, maxv = mx\<rparr>"
  by (simp_all add: DrawLine_def float64_def Let_def round64_tenth line_steps fadd_unit_steps
        trunc_unit trunc_numeral Set_def idx_def upd_def numeral_eq_Suc del: fadd.simps)

section \<open>Loops that keep an invariant\<close>

lemma forE_append: "forE (xs @ ys) body s = thenE (forE xs body s) (forE ys body)"
  by (induction xs arbitrary: s) (auto split: sum.splits)

lemma forE_invariant:
  assumes "P s"
    and "\<And>i s. i \<in> set is \<Longrightarrow> P s \<Longrightarrow> \<exists>s'. body i s = Inr s' \<and> P s'"
  shows "\<exists>s'. forE is body s = Inr s' \<and> P s'"
  using assms
proof (induction "is" arbitrary: s)
  case Nil
  then show ?case by simp
next
  case (Cons i "is")
  from Cons.prems obtain s1 where s1: "body i s = Inr s1" "P s1"
    by (meson list.set_intros(1))
  have "\<exists>s'. forE is body s1 = Inr s' \<and> P s'"
    by (rule Cons.IH [OF s1(2)]) (simp add: Cons.prems(2))
  with s1 show ?case by simp
qed

lemma set_range_int [simp]: "set (range_int lo hi) = {i. lo \<le> i \<and> i < hi}"
proof -
  have "i \<in> set (range_int lo hi) \<longleftrightarrow> lo \<le> i \<and> i < hi" for i
  proof
    assume "i \<in> set (range_int lo hi)"
    then obtain k where "k < nat (hi - lo)" "i = lo + int k"
      by (auto simp: range_int_def)
    then show "lo \<le> i \<and> i < hi" by auto
  next
    assume h: "lo \<le> i \<and> i < hi"
    then have "nat (i - lo) < nat (hi - lo)" "i = lo + int (nat (i - lo))" by auto
    then show "i \<in> set (range_int lo hi)"
      unfolding range_int_def by (metis (no_types, lifting) atLeast0LessThan image_eqI lessThan_iff set_map set_upt)
  qed
  then show ?thesis by auto
qed

lemma for_cells_invariant:
  assumes "P d"
    and "\<And>i j d. 0 \<le> i \<Longrightarrow> i < h \<Longrightarrow> 0 \<le> j \<Longrightarrow> j < n \<Longrightarrow> P d \<Longrightarrow> \<exists>d'. body i j d = Inr d' \<and> P d'"
  shows "\<exists>d'. for_cells h n body d = Inr d' \<and> P d'"
  unfolding for_cells_def
proof (rule forE_invariant [where P = P])
  show "P d" by (rule assms(1))
next
  fix i d0
  assume i: "i \<in> set (range_int 0 h)" and d0: "P d0"
  show "\<exists>d'. forE (range_int 0 n) (body i) d0 = Inr d' \<and> P d'"
  proof (rule forE_invariant [where P = P])
    show "P d0" by (rule d0)
  next
    fix j d1
    assume "j \<in> set (range_int 0 n)" "P d1"
    with i show "\<exists>d'. body i j d1 = Inr d' \<and> P d'"
      by (intro assms(2)) auto
  qed
qed

lemma raster_ok_row: "raster_ok w h d \<Longrightarrow> 0 \<le> i \<Longrightarrow> i < h \<Longrightarrow> int (length (d ! nat i)) = w"
  by (auto simp: raster_ok_def list_all_length)

lemma get2_ok:
  "raster_ok w h d \<Longrightarrow> 0 \<le> i \<Longrightarrow> i < h \<Longrightarrow> 0 \<le> j \<Longrightarrow> j < w \<Longrightarrow> get2 d i j = Inr (d ! nat i ! nat j)"
  by (auto simp: get2_def idx_def raster_ok_def list_all_length)

lemma raster_ok_update:
  "raster_ok w h d \<Longrightarrow> int (length row) = w \<Longrightarrow> raster_ok w h (d[k := row])"
  by (cases "k < length d") (auto simp: raster_ok_def list_all_length nth_list_update)

lemma set2_ok:
  assumes "raster_ok w h d" "0 \<le> i" "i < h" "0 \<le> j" "j < w"
  shows "set2 d i j v = Inr (d[nat i := (d ! nat i)[nat j := v]])"
    and "raster_ok w h (d[nat i := (d ! nat i)[nat j := v]])"
  using assms by (auto simp: set2_def idx_def upd_def raster_ok_def list_all_length nth_list_update)

lemma swap_cells_ok:
  assumes "raster_ok w h d" "0 \<le> i" "i < h" "0 \<le> j" "j < w" "0 \<le> k" "k < w"
  shows "\<exists>d'. swap_cells d i j k = Inr d' \<and> raster_ok w h d'"
proof -
  let ?d1 = "d[nat i := (d ! nat i)[nat j := d ! nat i ! nat k]]"
  have 1: "set2 d i j (d ! nat i ! nat k) = Inr ?d1" "raster_ok w h ?d1"
    using set2_ok [OF assms(1-5)] by auto
  have 2: "set2 ?d1 i k (d ! nat i ! nat j) = Inr (?d1[nat i := (?d1 ! nat i)[nat k := d ! nat i ! nat j]])"
    "raster_ok w h (?d1[nat i := (?d1 ! nat i)[nat k := d ! nat i ! nat j]])"
    using set2_ok [OF 1(2) assms(2,3,6,7)] by auto
  show ?thesis
    using assms 1 2 by (simp add: swap_cells_def get2_ok)
qed

lemma swap_rows_ok:
  assumes "raster_ok w h d" "0 \<le> i" "i < h" "0 \<le> k" "k < h"
  shows "\<exists>d'. swap_rows d i k = Inr d' \<and> raster_ok w h d'"
  using assms
  by (auto simp: swap_rows_def idx_def upd_def raster_ok_def list_all_length nth_list_update)

lemma flip_raster_ok:
  assumes "raster_ok w h d"
  shows "\<exists>d'. flip_raster w h d = Inr d' \<and> raster_ok w h d'"
  unfolding flip_raster_def
  by (rule for_cells_invariant [where P = "raster_ok w h"], rule assms, rule swap_cells_ok) auto

lemma flop_raster_ok:
  assumes "raster_ok w h d"
  shows "\<exists>d'. flop_raster h d = Inr d' \<and> raster_ok w h d'"
  unfolding flop_raster_def
  by (rule forE_invariant [where P = "raster_ok w h"], rule assms, rule swap_rows_ok) auto

lemma modify_cells_ok:
  assumes "raster_ok w h d"
  shows "\<exists>d'. for_cells h w (\<lambda>i j d. thenE (get2 d i j) (\<lambda>v. set2 d i j (f v))) d = Inr d' \<and> raster_ok w h d'"
  by (rule for_cells_invariant [where P = "raster_ok w h"], rule assms) (simp add: get2_ok set2_ok)

section \<open>Invert, Flip and Flop keep the frame\<close>

lemma PGM_Flip_row_length:
  "0 \<le> j \<Longrightarrow> k < int (length row) \<Longrightarrow>
   \<exists>row'. PGM_Flip_row j k row = Inr row' \<and> length row' = length row"
proof (induction j k row rule: PGM_Flip_row.induct)
  case (1 j k row)
  show ?case
  proof (cases "j < k")
    case False
    then show ?thesis by (subst PGM_Flip_row.simps) simp
  next
    case True
    let ?r1 = "row[nat j := row ! nat k]"
    let ?r2 = "?r1[nat k := row ! nat j]"
    have a: "idx row k = Inr (row ! nat k)" "idx row j = Inr (row ! nat j)"
      "upd row j (row ! nat k) = Inr ?r1" "upd ?r1 k (row ! nat j) = Inr ?r2"
      using True "1.prems" by (simp_all add: idx_def upd_def)
    have "\<exists>row'. PGM_Flip_row (j + 1) (k - 1) ?r2 = Inr row' \<and> length row' = length ?r2"
      using True "1.prems" a by (intro "1.IH" [OF True]) auto
    then show ?thesis
      using True a by (subst PGM_Flip_row.simps) simp
  qed
qed

lemma mapE_all:
  assumes "\<And>x. x \<in> set xs \<Longrightarrow> \<exists>y. f x = Inr y \<and> Q x y"
  shows "\<exists>ys. mapE f xs = Inr ys \<and> list_all2 Q xs ys"
  using assms
proof (induction xs)
  case Nil
  then show ?case by simp
next
  case (Cons x xs)
  from Cons.prems obtain y where y: "f x = Inr y" "Q x y" by (meson list.set_intros(1))
  from Cons obtain ys where ys: "mapE f xs = Inr ys" "list_all2 Q xs ys" by (meson list.set_intros(2))
  show ?case using y ys by simp
qed

lemma PGM_Flip_ok:
  assumes "raster_ok w h d"
  shows "\<exists>d'. mapE (\<lambda>row. PGM_Flip_row 0 (int (length row) - 1) row) d = Inr d' \<and> raster_ok w h d'"
proof -
  have "\<exists>ys. mapE (\<lambda>row. PGM_Flip_row 0 (int (length row) - 1) row) d = Inr ys \<and>
          list_all2 (\<lambda>row row'. length row' = length row) d ys"
    by (rule mapE_all, rule PGM_Flip_row_length) auto
  then obtain ys where ys: "mapE (\<lambda>row. PGM_Flip_row 0 (int (length row) - 1) row) d = Inr ys"
      "list_all2 (\<lambda>row row'. length row' = length row) d ys" by blast
  from ys(2) assms have "raster_ok w h ys"
    by (auto simp: raster_ok_def list_all_length list_all2_conv_all_nth)
  with ys(1) show ?thesis by blast
qed

lemma PGM_Invert_ok:
  "raster_ok w h d \<Longrightarrow> raster_ok w h (map (map f) d)"
  by (auto simp: raster_ok_def list_all_length)

text \<open>
  Claim C10.  On an image whose raster has \<open>height\<close> rows of \<open>width\<close> samples, each of
  Invert, Flip and Flop (of PBM, PGM and PPM) returns normally, and the result is the
  same image with another raster: width, height, magic number and max value are the
  stored ones, and the new raster again has \<open>height\<close> rows of \<open>width\<close> samples.
\<close>

theorem transforms_keep_frame:
  assumes "PBM_ok pbm" and "PGM_ok pgm" and "PPM_ok ppm"
  shows
    "(\<exists>d. PBM_Invert pbm = Inr (pbm\<lparr>PBM.data := d\<rparr>) \<and> PBM_ok (pbm\<lparr>PBM.data := d\<rparr>)) \<and>
     (\<exists>d. PBM_Flip pbm = Inr (pbm\<lparr>PBM.data := d\<rparr>) \<and> PBM_ok (pbm\<lparr>PBM.data := d\<rparr>)) \<and>
     (\<exists>d. PBM_Flop pbm = Inr (pbm\<lparr>PBM.data := d\<rparr>) \<and> PBM_ok (pbm\<lparr>PBM.data := d\<rparr>)) \<and>
     (\<exists>d. PGM_Invert pgm = Inr (pgm\<lparr>PGM.data := d\<rparr>) \<and> PGM_ok (pgm\<lparr>PGM.data := d\<rparr>)) \<and>
     (\<exists>d. PGM_Flip pgm = Inr (pgm\<lparr>PGM.data := d\<rparr>) \<and> PGM_ok (pgm\<lparr>PGM.data := d\<rparr>)) \<and>
     (\<exists>d. PGM_Flop pgm = Inr (pgm\<lparr>PGM.data := d\<rparr>) \<and> PGM_ok (pgm\<lparr>PGM.data := d\<rparr>)) \<and>
     (\<exists>d. PPM_Invert ppm = Inr (ppm\<lparr>PPM.data := d\<rparr>) \<and> PPM_ok (ppm\<lparr>PPM.data := d\<rparr>)) \<and>
     (\<exists>d. PPM_Flip ppm = Inr (ppm\<lparr>PPM.data := d\<rparr>) \<and> PPM_ok (ppm\<lparr>PPM.data := d\<rparr>)) \<and>
     (\<exists>d. PPM_Flop ppm = Inr (ppm\<lparr>PPM.data := d\<rparr>) \<and> PPM_ok (ppm\<lparr>PPM.data := d\<rparr>))"
proof -
  have b: "raster_ok (PBM.width pbm) (PBM.height pbm) (PBM.data pbm)"
    using assms(1) by (simp add: PBM_ok_def)
  have g: "raster_ok (PGM.width pgm) (PGM.height pgm) (PGM.data pgm)"
    using assms(2) by (simp add: PGM_ok_def)
  have p: "raster_ok (PPM.width ppm) (PPM.height ppm) (PPM.data ppm)"
    using assms(3) by (simp add: PPM_ok_def)
  have b1: "\<exists>d. PBM_Invert pbm = Inr (pbm\<lparr>PBM.data := d\<rparr>) \<and> PBM_ok (pbm\<lparr>PBM.data := d\<rparr>)"
    using modify_cells_ok [OF b, of Not] by (auto simp: PBM_Invert_def PBM_ok_def)
  have b2: "\<exists>d. PBM_Flip pbm = Inr (pbm\<lparr>PBM.data := d\<rparr>) \<and> PBM_ok (pbm\<lparr>PBM.data := d\<rparr>)"
    using flip_raster_ok [OF b] by (auto simp: PBM_Flip_def PBM_ok_def)
  have b3: "\<exists>d. PBM_Flop pbm = Inr (pbm\<lparr>PBM.data := d\<rparr>) \<and> PBM_ok (pbm\<lparr>PBM.data := d\<rparr>)"
    using flop_raster_ok [OF b] by (auto simp: PBM_Flop_def PBM_ok_def)
  have g1: "\<exists>d. PGM_Invert pgm = Inr (pgm\<lparr>PGM.data := d\<rparr>) \<and> PGM_ok (pgm\<lparr>PGM.data := d\<rparr>)"
    using PGM_Invert_ok [OF g] by (auto simp: PGM_Invert_def PGM_ok_def)
  have g2: "\<exists>d. PGM_Flip pgm = Inr (pgm\<lparr>PGM.data := d\<rparr>) \<and> PGM_ok (pgm\<lparr>PGM.data := d\<rparr>)"
    using PGM_Flip_ok [OF g] by (auto simp: PGM_Flip_def PGM_ok_def)
  have g3: "\<exists>d. PGM_Flop pgm = Inr (pgm\<lparr>PGM.data := d\<rparr>) \<and> PGM_ok (pgm\<lparr>PGM.data := d\<rparr>)"
    using flop_raster_ok [OF g] by (auto simp: PGM_Flop_def PGM_ok_def)
  have p1: "\<exists>d. PPM_Invert ppm = Inr (ppm\<lparr>PPM.data := d\<rparr>) \<and> PPM_ok (ppm\<lparr>PPM.data := d\<rparr>)"
    using modify_cells_ok [OF p, of "invert_pixel (PPM.maxv ppm)"]
    by (auto simp: PPM_Invert_def PPM_ok_def)
  have p2: "\<exists>d. PPM_Flip ppm = Inr (ppm\<lparr>PPM.data := d\<rparr>) \<and> PPM_ok (ppm\<lparr>PPM.data := d\<rparr>)"
    using flip_raster_ok [OF p] by (auto simp: PPM_Flip_def PPM_ok_def)
  have p3: "\<exists>d. PPM_Flop ppm = Inr (ppm\<lparr>PPM.data := d\<rparr>) \<and> PPM_ok (ppm\<lparr>PPM.data := d\<rparr>)"
    using flop_raster_ok [OF p] by (auto simp: PPM_Flop_def PPM_ok_def)
  from b1 b2 b3 g1 g2 g3 p1 p2 p3 show ?thesis by blast
qed

lemma examples_ok: "PBM_ok example_pbm" "PGM_ok example_pgm" "PPM_ok example_ppm"
  by (simp_all add: PBM_ok_def PGM_ok_def PPM_ok_def raster_ok_def
      example_pbm_def example_pgm_def example_ppm_def)

theorem transforms_keep_frame_witness:
  "PBM_ok example_pbm \<and> PGM_ok example_pgm \<and> PPM_ok example_ppm \<and>
   (\<exists>d. PBM_Invert example_pbm = Inr (example_pbm\<lparr>PBM.data := d\<rparr>) \<and>
        PBM_ok (example_pbm\<lparr>PBM.data := d\<rparr>)) \<and>
   (\<exists>d. PGM_Flip example_pgm = Inr (example_pgm\<lparr>PGM.data := d\<rparr>) \<and>
        PGM_ok (example_pgm\<lparr>PGM.data := d\<rparr>)) \<and>
   (\<exists>d. PPM_Flop example_ppm = Inr (example_ppm\<lparr>PPM.data := d\<rparr>) \<and>
        PPM_ok (example_ppm\<lparr>PPM.data := d\<rparr>))"
  using transforms_keep_frame [OF examples_ok] examples_ok by blast

section \<open>Counted loops with an invariant that depends on the index\<close>

lemma range_int_Suc: "range_int 0 (1 + int n) = range_int 0 (int n) @ [int n]"
proof -
  have "nat (1 + int n) = Suc n" by simp
  then show ?thesis by (simp add: range_int_def)
qed

lemma forE_range_invariant:
  assumes "I 0 s"
    and "\<And>k s. k < n \<Longrightarrow> I k s \<Longrightarrow> \<exists>s'. body (int k) s = Inr s' \<and> I (Suc k) s'"
  shows "\<exists>s'. forE (range_int 0 (int n)) body s = Inr s' \<and> I n s'"
  using assms(2)
proof (induction n)
  case 0
  then show ?case using assms(1) by (simp add: range_int_def)
next
  case (Suc n)
  then obtain s1 where s1: "forE (range_int 0 (int n)) body s = Inr s1" "I n s1"
    by (metis less_Suc_eq)
  from Suc.prems [OF _ s1(2)] obtain s2 where "body (int n) s1 = Inr s2" "I (Suc n) s2"
    by blast
  with s1 show ?case
    by (simp add: range_int_Suc forE_append split: sum.splits)
qed

lemma quot_nonneg: "0 \<le> a \<Longrightarrow> 0 < b \<Longrightarrow> quot a b = a div b"
  by (simp add: quot_def sgn_if)

section \<open>The packed rows of saveP4\<close>

lemma bit_or_mask_u8:
  "m < 8 \<Longrightarrow> bit ((b :: 8 word) OR push_bit m 1) n \<longleftrightarrow> bit b n \<or> n = m"
  by (auto simp: bit_simps)

lemma bit_or_exp_u8:
  "m < 8 \<Longrightarrow> bit ((b :: 8 word) OR 2 ^ m) n \<longleftrightarrow> bit b n \<or> n = m"
  by (auto simp: bit_simps)

lemma saveP4_row_bits:
  assumes y: "0 \<le> y" "y < int (length d)" and w: "int (length (d ! nat y)) = w"
  shows "\<exists>row. saveP4_row w d y = Inr row \<and> int (length row) = (w + 7) div 8 \<and>
           (\<forall>k<length row. \<forall>j<8. bit (row ! k) (7 - j) \<longleftrightarrow>
              (int (8 * k + j) < w \<and> d ! nat y ! (8 * k + j)))"
proof -
  define r where "r = d ! nat y"
  define n where "n = length r"
  define len where "len = (n + 7) div 8"
  have wn: "w = int n" using w by (simp add: r_def n_def)
  have q: "quot (w + 7) 8 = int len"
    unfolding wn len_def by (subst quot_nonneg) (simp_all add: zdiv_int)
  define I where "I = (\<lambda>m (row :: 8 word list). length row = len \<and>
     (\<forall>k<len. \<forall>j<8. bit (row ! k) (7 - j) \<longleftrightarrow> (8 * k + j < m \<and> r ! (8 * k + j))))"
  let ?body = "\<lambda>x row. thenE (get2 d y x) (\<lambda>v.
                if v then thenE (idx row (x div 8)) (\<lambda>b.
                            upd row (x div 8) (b OR push_bit (nat (7 - x mod 8)) 1))
                else Inr row)"
  have I0: "I 0 (replicate len 0)"
    by (simp add: I_def)
  have step: "\<exists>s'. ?body (int m) row = Inr s' \<and> I (Suc m) s'" if m: "m < n" and Im: "I m row" for m row
  proof -
    have g: "get2 d y (int m) = Inr (r ! m)"
      using y m by (simp add: get2_def idx_def r_def n_def)
    have mlen: "m div 8 < len" using m by (simp add: len_def)
    have "int m mod 8 = int (m mod 8)" by (simp add: zmod_int)
    then have dm: "int m div 8 = int (m div 8)" "nat (7 - int m mod 8) = 7 - m mod 8"
      by (simp_all add: zdiv_int nat_diff_distrib')
    show ?thesis
    proof (cases "r ! m")
      case False
      have "I (Suc m) row"
        unfolding I_def
      proof (intro conjI allI impI)
        show "length row = len" using Im by (simp add: I_def)
      next
        fix k j assume kj: "k < len" "j < (8::nat)"
        have "bit (row ! k) (7 - j) \<longleftrightarrow> (8 * k + j < m \<and> r ! (8 * k + j))"
          using Im kj by (simp add: I_def)
        moreover have "8 * k + j = m \<Longrightarrow> \<not> r ! (8 * k + j)" using False by simp
        ultimately show "bit (row ! k) (7 - j) \<longleftrightarrow> (8 * k + j < Suc m \<and> r ! (8 * k + j))"
          by (metis less_Suc_eq)
      qed
      with g False show ?thesis by simp
    next
      case True
      let ?row' = "row[m div 8 := row ! (m div 8) OR push_bit (7 - m mod 8) 1]"
      have lr: "length row = len" using Im by (simp add: I_def)
      have e: "?body (int m) row = Inr ?row'"
        using g True mlen lr by (simp add: dm idx_def upd_def)
      have "I (Suc m) ?row'"
        unfolding I_def
      proof (intro conjI allI impI)
        show "length ?row' = len" using lr by simp
      next
        fix k j assume kj: "k < len" "j < (8::nat)"
        have old: "bit (row ! k) (7 - j) \<longleftrightarrow> (8 * k + j < m \<and> r ! (8 * k + j))"
          using Im kj by (simp add: I_def)
        show "bit (?row' ! k) (7 - j) \<longleftrightarrow> (8 * k + j < Suc m \<and> r ! (8 * k + j))"
        proof (cases "k = m div 8")
          case False
          then have "8 * k + j \<noteq> m" using kj by auto
          with False old lr kj show ?thesis by (simp add: less_Suc_eq)
        next
          case k: True
          have "m mod 8 < 8" "8 * (m div 8) + m mod 8 = m" by simp_all
          then have "7 - j = 7 - m mod 8 \<longleftrightarrow> 8 * k + j = m"
            using kj k by linarith
          then have "bit (?row' ! k) (7 - j) \<longleftrightarrow> bit (row ! k) (7 - j) \<or> 8 * k + j = m"
            using k lr mlen by (simp add: bit_or_exp_u8)
          with old True show ?thesis by (auto simp: less_Suc_eq)
        qed
      qed
      with e show ?thesis by blast
    qed
  qed
  have "\<exists>s'. forE (range_int 0 (int n)) ?body (replicate len 0) = Inr s' \<and> I n s'"
    by (rule forE_range_invariant [where I = I and body = ?body], rule I0, rule step)
  then obtain row where row: "forE (range_int 0 (int n)) ?body (replicate len 0) = Inr row" "I n row"
    by blast
  have "saveP4_row w d y = Inr row"
    using row(1) q by (simp add: saveP4_row_def wn)
  moreover have "int (length row) = (w + 7) div 8"
    using row(2) by (simp add: I_def len_def wn zdiv_int)
  moreover have "\<forall>k<length row. \<forall>j<8. bit (row ! k) (7 - j) \<longleftrightarrow>
              (int (8 * k + j) < w \<and> d ! nat y ! (8 * k + j))"
  proof -
    have "int (8 * k + j) < w \<longleftrightarrow> 8 * k + j < n" for k j
      unfolding wn by (simp only: of_nat_less_iff)
    then show ?thesis using row(2) by (simp only: I_def r_def) simp
  qed
  ultimately show ?thesis by blast
qed

lemma ceiling_eighth: "\<lceil>real_of_int w / 8\<rceil> = (w + 7) div 8"
proof -
  have "\<lceil>real_of_int w / real_of_int 8\<rceil> = - (- w div 8)"
    by (rule ceiling_divide_eq_div)
  then show ?thesis by simp
qed

text \<open>
  Claim C6.  For a row \<open>data[y]\<close> of \<open>width\<close> booleans, the row encoder of \<open>saveP4\<close> returns
  \<open>\<lceil>width/8\<rceil>\<close> bytes; bit \<open>7 - j\<close> of byte \<open>k\<close> (bit 7 is the most significant) is set
  exactly when column \<open>8k + j\<close> exists and is true, so column 0 is the top bit of byte 0
  and the bits behind the last column are zero.  The row \<open>1,0,1,0,1,0,1,0,1,0\<close> of width
  10 gives the bytes \<open>0b10101010\<close>, \<open>0b10000000\<close>.
\<close>

theorem saveP4_row_packs:
  assumes "0 \<le> y" and "y < int (length d)" and "int (length (d ! nat y)) = w"
  shows "(\<exists>row. saveP4_row w d y = Inr row \<and> int (length row) = \<lceil>real_of_int w / 8\<rceil> \<and>
            (\<forall>k<length row. \<forall>j<8. bit (row ! k) (7 - j) \<longleftrightarrow>
               (int (8 * k + j) < w \<and> d ! nat y ! (8 * k + j)))) \<and>
         saveP4_row 10 [[True, False, True, False, True, False, True, False, True, False]] 0
           = Inr [0b10101010, 0b10000000]"
proof
  show "\<exists>row. saveP4_row w d y = Inr row \<and> int (length row) = \<lceil>real_of_int w / 8\<rceil> \<and>
            (\<forall>k<length row. \<forall>j<8. bit (row ! k) (7 - j) \<longleftrightarrow>
               (int (8 * k + j) < w \<and> d ! nat y ! (8 * k + j)))"
    using saveP4_row_bits [OF assms] by (simp only: ceiling_eighth)
next
  show "saveP4_row 10 [[True, False, True, False, True, False, True, False, True, False]] 0
           = Inr [0b10101010, 0b10000000]"
    by (simp add: saveP4_row_def quot_def range_int_def get2_def idx_def upd_def upt_rec
        numeral_2_eq_2)
qed

theorem saveP4_row_packs_witness:
  "\<exists>row. saveP4_row 3 [[False, True, True]] 0 = Inr row \<and> int (length row) = 1 \<and>
     \<not> bit (row ! 0) 7 \<and> bit (row ! 0) 6 \<and> bit (row ! 0) 5 \<and> \<not> bit (row ! 0) 4 \<and>
     \<not> bit (row ! 0) 0"
proof -
  have "\<exists>row. saveP4_row 3 [[False, True, True]] 0 = Inr row \<and>
          int (length row) = \<lceil>real_of_int 3 / 8\<rceil> \<and>
          (\<forall>k<length row. \<forall>j<8. bit (row ! k) (7 - j) \<longleftrightarrow>
             (int (8 * k + j) < 3 \<and> [[False, True, True]] ! nat 0 ! (8 * k + j)))"
    using saveP4_row_packs [of 0 "[[False, True, True]]" 3] by simp
  then obtain row where row: "saveP4_row 3 [[False, True, True]] 0 = Inr row" "length row = 1"
    and bits: "\<forall>j<8. bit (row ! 0) (7 - j) \<longleftrightarrow> (j < 3 \<and> [False, True, True] ! j)"
    by (auto simp: ceiling_eighth)
  from bits [rule_format, of 0] bits [rule_format, of 1] bits [rule_format, of 2]
    bits [rule_format, of 3] bits [rule_format, of 7] row
  show ?thesis by auto
qed

section \<open>Rotate90CW\<close>

lemma range_int_0: "range_int 0 n = map int [0..<nat n]"
  by (simp add: range_int_def)

lemma mapE_map:
  assumes "\<And>x. x \<in> set xs \<Longrightarrow> f x = Inr (g x)"
  shows "mapE f xs = Inr (map g xs)"
  using assms by (induction xs) simp_all

lemma rotate_spec_nth:
  "i < w \<Longrightarrow> j < h \<Longrightarrow> rotate_spec w h d ! i ! j = d ! (h - 1 - j) ! i"
  by (simp add: rotate_spec_def)

lemma rotate_spec_ok: "raster_ok (int h) (int w) (rotate_spec w h d)"
  by (simp add: raster_ok_def rotate_spec_def list_all_length)

lemma raster_ok_nat:
  "raster_ok w h d \<Longrightarrow> 0 < w \<Longrightarrow> length d = nat h \<and> (\<forall>i<nat h. length (d ! i) = nat w)"
  by (auto simp: raster_ok_def list_all_length)

lemma rotate_spec_twice:
  assumes "length d = h" and "\<forall>i<h. length (d ! i) = w"
  shows "rotate_spec h w (rotate_spec w h d) = map rev (rev d)"
proof (rule nth_equalityI)
  show "length (rotate_spec h w (rotate_spec w h d)) = length (map rev (rev d))"
    using assms by (simp add: rotate_spec_def)
next
  fix i assume "i < length (rotate_spec h w (rotate_spec w h d))"
  then have i: "i < h" by (simp add: rotate_spec_def)
  show "rotate_spec h w (rotate_spec w h d) ! i = map rev (rev d) ! i"
  proof (rule nth_equalityI)
    show "length (rotate_spec h w (rotate_spec w h d) ! i) = length (map rev (rev d) ! i)"
      using i assms by (simp add: rotate_spec_def rev_nth)
  next
    fix j assume "j < length (rotate_spec h w (rotate_spec w h d) ! i)"
    then have j: "j < w" using i by (simp add: rotate_spec_def)
    have "rotate_spec h w (rotate_spec w h d) ! i ! j = rotate_spec w h d ! (w - 1 - j) ! i"
      using i j by (simp add: rotate_spec_nth)
    also have "\<dots> = d ! (h - 1 - i) ! (w - 1 - j)"
      using i j by (simp add: rotate_spec_nth)
    also have "\<dots> = map rev (rev d) ! i ! j"
      using i j assms by (simp add: rev_nth Suc_diff_Suc)
    finally show "rotate_spec h w (rotate_spec w h d) ! i ! j = map rev (rev d) ! i ! j" .
  qed
qed

lemma rotate_spec_four:
  assumes "length d = h" and "\<forall>i<h. length (d ! i) = w"
  shows "rotate_spec h w (rotate_spec w h (rotate_spec h w (rotate_spec w h d))) = d"
proof -
  let ?d2 = "map rev (rev d)"
  have d2: "length ?d2 = h" "\<forall>i<h. length (?d2 ! i) = w"
    using assms by (simp_all add: rev_nth)
  have "rotate_spec h w (rotate_spec w h ?d2) = map rev (rev ?d2)"
    by (rule rotate_spec_twice [OF d2])
  also have "\<dots> = d" by (simp add: rev_map)
  finally show ?thesis by (simp add: rotate_spec_twice [OF assms])
qed

lemma PGM_Rotate90CW_spec:
  assumes ok: "PGM_ok pgm" and pos: "0 < PGM.width pgm" "0 < PGM.height pgm"
  shows "PGM_Rotate90CW pgm =
    Inr (pgm\<lparr>PGM.data := rotate_spec (nat (PGM.width pgm)) (nat (PGM.height pgm)) (PGM.data pgm),
             PGM.width := PGM.height pgm, PGM.height := PGM.width pgm\<rparr>)"
proof -
  let ?w = "PGM.width pgm" and ?h = "PGM.height pgm" and ?d = "PGM.data pgm"
  have r: "raster_ok ?w ?h ?d" using ok by (simp add: PGM_ok_def)
  have inner: "mapE (\<lambda>j. get2 ?d (?h - j - 1) i) (range_int 0 ?h)
             = Inr (map (\<lambda>j. ?d ! (nat ?h - 1 - j) ! nat i) [0..<nat ?h])"
    if i: "0 \<le> i" "i < ?w" for i
  proof -
    have "mapE (\<lambda>j. get2 ?d (?h - j - 1) i) (range_int 0 ?h)
          = Inr (map (\<lambda>j. ?d ! nat (?h - j - 1) ! nat i) (range_int 0 ?h))"
      by (rule mapE_map) (use r i in \<open>simp add: get2_ok\<close>)
    also have "map (\<lambda>j. ?d ! nat (?h - j - 1) ! nat i) (range_int 0 ?h)
             = map (\<lambda>j. ?d ! (nat ?h - 1 - j) ! nat i) [0..<nat ?h]"
      by (simp add: range_int_0 nat_diff_distrib')
    finally show ?thesis .
  qed
  have "mapE (\<lambda>i. mapE (\<lambda>j. get2 ?d (?h - j - 1) i) (range_int 0 ?h)) (range_int 0 ?w)
        = Inr (map (\<lambda>i. map (\<lambda>j. ?d ! (nat ?h - 1 - j) ! nat i) [0..<nat ?h]) (range_int 0 ?w))"
    by (rule mapE_map) (simp add: inner)
  also have "map (\<lambda>i. map (\<lambda>j. ?d ! (nat ?h - 1 - j) ! nat i) [0..<nat ?h]) (range_int 0 ?w)
           = rotate_spec (nat ?w) (nat ?h) ?d"
    by (simp add: range_int_0 rotate_spec_def)
  finally show ?thesis using pos by (simp add: PGM_Rotate90CW_def)
qed


lemma for_cells_range_invariant:
  assumes "J 0 0 d"
    and step: "\<And>i j d. i < h \<Longrightarrow> j < n \<Longrightarrow> J i j d \<Longrightarrow>
                 \<exists>d'. body (int i) (int j) d = Inr d' \<and> J i (Suc j) d'"
    and next_row: "\<And>i d. i < h \<Longrightarrow> J i n d \<Longrightarrow> J (Suc i) 0 d"
  shows "\<exists>d'. for_cells (int h) (int n) body d = Inr d' \<and> J h 0 d'"
  unfolding for_cells_def
proof (rule forE_range_invariant [where I = "\<lambda>i. J i 0"])
  show "J 0 0 d" by (rule assms(1))
next
  fix i d0 assume i: "i < h" and d0: "J i 0 d0"
  have "\<exists>d'. forE (range_int 0 (int n)) (body (int i)) d0 = Inr d' \<and> J i n d'"
    by (rule forE_range_invariant [where I = "J i"], rule d0, rule step [OF i])
  then show "\<exists>d'. forE (range_int 0 (int n)) (body (int i)) d0 = Inr d' \<and> J (Suc i) 0 d'"
    using next_row [OF i] by blast
qed

lemma PPM_Rotate90CW_spec:
  assumes ok: "PPM_ok ppm" and pos: "0 < PPM.width ppm" "0 < PPM.height ppm"
  shows "PPM_Rotate90CW ppm =
    Inr (ppm\<lparr>PPM.data := rotate_spec (nat (PPM.width ppm)) (nat (PPM.height ppm)) (PPM.data ppm),
             PPM.width := PPM.height ppm, PPM.height := PPM.width ppm\<rparr>)"
proof -
  define w where "w = nat (PPM.width ppm)"
  define h where "h = nat (PPM.height ppm)"
  define d where "d = PPM.data ppm"
  have wh: "PPM.width ppm = int w" "PPM.height ppm = int h" "0 < w" "0 < h"
    using pos by (simp_all add: w_def h_def)
  have r: "raster_ok (int w) (int h) d"
    using ok by (simp add: PPM_ok_def wh d_def)
  define J where "J = (\<lambda>i j (nd :: Pixel list list).
     raster_ok (int h) (int w) nd \<and>
     (\<forall>i'<h. \<forall>j'<w. i' < i \<or> (i' = i \<and> j' < j) \<longrightarrow> nd ! j' ! (h - 1 - i') = d ! i' ! j'))"
  let ?body = "\<lambda>i j nd. thenE (get2 d i j) (\<lambda>p. set2 nd j (int h - 1 - i) p)"
  let ?nd0 = "replicate w (replicate h zero_pixel)"
  have J0: "J 0 0 ?nd0"
    by (simp add: J_def raster_ok_def list_all_length)
  have step: "\<exists>d'. ?body (int i) (int j) nd = Inr d' \<and> J i (Suc j) d'"
    if i: "i < h" and j: "j < w" and Jn: "J i j nd" for i j nd
  proof -
    have rn: "raster_ok (int h) (int w) nd" using Jn by (simp add: J_def)
    have g: "get2 d (int i) (int j) = Inr (d ! i ! j)"
      using get2_ok [OF r, of "int i" "int j"] i j by simp
    have c: "nat (int h - 1 - int i) = h - 1 - i" "0 \<le> int h - 1 - int i" "int h - 1 - int i < int h"
      using i by auto
    let ?nd' = "nd[j := (nd ! j)[h - 1 - i := d ! i ! j]]"
    have s: "set2 nd (int j) (int h - 1 - int i) (d ! i ! j) = Inr ?nd'" "raster_ok (int h) (int w) ?nd'"
      using set2_ok [OF rn, of "int j" "int h - 1 - int i" "d ! i ! j"] i j c by simp_all
    have ln: "length nd = w" "\<forall>k<w. length (nd ! k) = h"
      using rn by (auto simp: raster_ok_def list_all_length)
    have "nd' ! j' ! (h - 1 - i') = d ! i' ! j'"
      if "i' < h" "j' < w" "i' < i \<or> (i' = i \<and> j' < Suc j)" and nd': "nd' = ?nd'" for i' j' nd'
    proof (cases "i' = i \<and> j' = j")
      case True
      then show ?thesis using ln i j nd' by simp
    next
      case False
      then have old: "i' < i \<or> (i' = i \<and> j' < j)" using that by auto
      have "?nd' ! j' ! (h - 1 - i') = nd ! j' ! (h - 1 - i')"
      proof (cases "j' = j")
        case True
        with False have "i' \<noteq> i" by simp
        then have "h - 1 - i \<noteq> h - 1 - i'" using i that(1) by auto
        then show ?thesis using True ln j by simp
      next
        case False
        then show ?thesis by simp
      qed
      also have "\<dots> = d ! i' ! j'"
        using Jn that(1,2) old unfolding J_def by blast
      finally show ?thesis using nd' by simp
    qed
    then have "J i (Suc j) ?nd'"
      using s(2) by (simp add: J_def)
    with g s(1) show ?thesis by auto
  qed
  have next_row: "J (Suc i) 0 nd" if "i < h" "J i w nd" for i nd
    using that by (auto simp: J_def less_Suc_eq)
  have "\<exists>nd. for_cells (int h) (int w) ?body ?nd0 = Inr nd \<and> J h 0 nd"
    by (rule for_cells_range_invariant [where J = J and body = ?body], rule J0, rule step)
       (auto intro: next_row)
  then obtain nd where nd: "for_cells (int h) (int w) ?body ?nd0 = Inr nd" "J h 0 nd"
    by blast
  have ln: "length nd = w" "\<forall>k<w. length (nd ! k) = h"
    using nd(2) by (auto simp: J_def raster_ok_def list_all_length)
  have pt: "nd ! a ! b = d ! (h - 1 - b) ! a" if "a < w" "b < h" for a b
  proof -
    have all: "\<forall>i'<h. \<forall>j'<w. nd ! j' ! (h - 1 - i') = d ! i' ! j'"
      using nd(2) by (simp add: J_def)
    have lt: "h - 1 - b < h" and twice: "h - 1 - (h - 1 - b) = b"
      using that by auto
    have "nd ! a ! (h - 1 - (h - 1 - b)) = d ! (h - 1 - b) ! a"
      by (rule all [rule_format, OF lt that(1)])
    then show ?thesis unfolding twice .
  qed
  have "nd = rotate_spec w h d"
  proof (rule nth_equalityI)
    show "length nd = length (rotate_spec w h d)" using ln by (simp add: rotate_spec_def)
  next
    fix a assume "a < length nd"
    then have a: "a < w" using ln by simp
    show "nd ! a = rotate_spec w h d ! a"
      by (rule nth_equalityI) (use a ln pt in \<open>simp_all add: rotate_spec_def\<close>)
  qed
  with nd(1) show ?thesis
    by (simp add: PPM_Rotate90CW_def make2_def wh d_def [symmetric] w_def [symmetric] h_def [symmetric])
qed


lemma raster_ok_lengths:
  "raster_ok (int w) (int h) d \<Longrightarrow> length d = h \<and> (\<forall>i<h. length (d ! i) = w)"
  by (auto simp: raster_ok_def list_all_length)

lemma PGM_Rotate90CW_four:
  assumes ok: "PGM_ok pgm" and pos: "0 < PGM.width pgm" "0 < PGM.height pgm"
  shows "thenE (thenE (thenE (PGM_Rotate90CW pgm) PGM_Rotate90CW) PGM_Rotate90CW) PGM_Rotate90CW
         = Inr pgm"
proof -
  define w where "w = nat (PGM.width pgm)"
  define h where "h = nat (PGM.height pgm)"
  define d where "d = PGM.data pgm"
  have wh: "PGM.width pgm = int w" "PGM.height pgm = int h" "0 < w" "0 < h"
    using pos by (simp_all add: w_def h_def)
  have r: "raster_ok (int w) (int h) d"
    using ok by (simp add: PGM_ok_def wh d_def)
  define turn where "turn = (\<lambda>a b (x :: 8 word list list).
     pgm\<lparr>PGM.data := x, PGM.width := int a, PGM.height := int b\<rparr>)"
  have one: "PGM_Rotate90CW (turn a b x) = Inr (turn b a (rotate_spec a b x))"
    if "raster_ok (int a) (int b) x" "0 < a" "0 < b" for a b x
    using PGM_Rotate90CW_spec [of "turn a b x"] that by (simp add: turn_def PGM_ok_def)
  have start: "pgm = turn w h d"
    by (simp add: turn_def wh(1,2) [symmetric] d_def)
  have "thenE (thenE (thenE (PGM_Rotate90CW (turn w h d)) PGM_Rotate90CW) PGM_Rotate90CW)
          PGM_Rotate90CW
        = Inr (turn w h (rotate_spec h w (rotate_spec w h (rotate_spec h w (rotate_spec w h d)))))"
    using r wh by (simp add: one rotate_spec_ok)
  also have "rotate_spec h w (rotate_spec w h (rotate_spec h w (rotate_spec w h d))) = d"
    using raster_ok_lengths [OF r] by (intro rotate_spec_four) auto
  finally show ?thesis by (simp add: start [symmetric])
qed

lemma PPM_Rotate90CW_four:
  assumes ok: "PPM_ok ppm" and pos: "0 < PPM.width ppm" "0 < PPM.height ppm"
  shows "thenE (thenE (thenE (PPM_Rotate90CW ppm) PPM_Rotate90CW) PPM_Rotate90CW) PPM_Rotate90CW
         = Inr ppm"
proof -
  define w where "w = nat (PPM.width ppm)"
  define h where "h = nat (PPM.height ppm)"
  define d where "d = PPM.data ppm"
  have wh: "PPM.width ppm = int w" "PPM.height ppm = int h" "0 < w" "0 < h"
    using pos by (simp_all add: w_def h_def)
  have r: "raster_ok (int w) (int h) d"
    using ok by (simp add: PPM_ok_def wh d_def)
  define turn where "turn = (\<lambda>a b (x :: Pixel list list).
     ppm\<lparr>PPM.data := x, PPM.width := int a, PPM.height := int b\<rparr>)"
  have one: "PPM_Rotate90CW (turn a b x) = Inr (turn b a (rotate_spec a b x))"
    if "raster_ok (int a) (int b) x" "0 < a" "0 < b" for a b x
    using PPM_Rotate90CW_spec [of "turn a b x"] that by (simp add: turn_def PPM_ok_def)
  have start: "ppm = turn w h d"
    by (simp add: turn_def wh(1,2) [symmetric] d_def)
  have "thenE (thenE (thenE (PPM_Rotate90CW (turn w h d)) PPM_Rotate90CW) PPM_Rotate90CW)
          PPM_Rotate90CW
        = Inr (turn w h (rotate_spec h w (rotate_spec w h (rotate_spec h w (rotate_spec w h d)))))"
    using r wh by (simp add: one rotate_spec_ok)
  also have "rotate_spec h w (rotate_spec w h (rotate_spec h w (rotate_spec w h d))) = d"
    using raster_ok_lengths [OF r] by (intro rotate_spec_four) auto
  finally show ?thesis by (simp add: start [symmetric])
qed

text \<open>
  Claim C7.  For a PGM and a PPM image of positive width \<open>w\<close> and height \<open>h\<close> whose raster
  has \<open>h\<close> rows of \<open>w\<close> samples, \<open>Rotate90CW\<close> returns the image with a new raster and with
  width and height exchanged in the same step; the new raster has \<open>w\<close> rows of \<open>h\<close>
  samples and its row \<open>i\<close>, column \<open>j\<close> is the old row \<open>h-1-j\<close>, column \<open>i\<close>; four
  rotations in a row return the image they started from.
\<close>

theorem Rotate90CW_spec:
  assumes "PGM_ok pgm" and "0 < PGM.width pgm" and "0 < PGM.height pgm"
    and "PPM_ok ppm" and "0 < PPM.width ppm" and "0 < PPM.height ppm"
  shows
    "(\<exists>nd. PGM_Rotate90CW pgm =
             Inr (pgm\<lparr>PGM.data := nd, PGM.width := PGM.height pgm, PGM.height := PGM.width pgm\<rparr>) \<and>
           raster_ok (PGM.height pgm) (PGM.width pgm) nd \<and>
           (\<forall>i<nat (PGM.width pgm). \<forall>j<nat (PGM.height pgm).
              nd ! i ! j = PGM.data pgm ! (nat (PGM.height pgm) - 1 - j) ! i)) \<and>
     thenE (thenE (thenE (PGM_Rotate90CW pgm) PGM_Rotate90CW) PGM_Rotate90CW) PGM_Rotate90CW
       = Inr pgm \<and>
     (\<exists>nd. PPM_Rotate90CW ppm =
             Inr (ppm\<lparr>PPM.data := nd, PPM.width := PPM.height ppm, PPM.height := PPM.width ppm\<rparr>) \<and>
           raster_ok (PPM.height ppm) (PPM.width ppm) nd \<and>
           (\<forall>i<nat (PPM.width ppm). \<forall>j<nat (PPM.height ppm).
              nd ! i ! j = PPM.data ppm ! (nat (PPM.height ppm) - 1 - j) ! i)) \<and>
     thenE (thenE (thenE (PPM_Rotate90CW ppm) PPM_Rotate90CW) PPM_Rotate90CW) PPM_Rotate90CW
       = Inr ppm"
proof -
  have ok: "raster_ok (int (nat h)) (int (nat w)) (rotate_spec (nat w) (nat h) x)" for w h :: int
      and x :: "'a list list"
    by (rule rotate_spec_ok)
  have 1: "\<exists>nd. PGM_Rotate90CW pgm =
             Inr (pgm\<lparr>PGM.data := nd, PGM.width := PGM.height pgm, PGM.height := PGM.width pgm\<rparr>) \<and>
           raster_ok (PGM.height pgm) (PGM.width pgm) nd \<and>
           (\<forall>i<nat (PGM.width pgm). \<forall>j<nat (PGM.height pgm).
              nd ! i ! j = PGM.data pgm ! (nat (PGM.height pgm) - 1 - j) ! i)"
    using PGM_Rotate90CW_spec [OF assms(1-3)] ok [of "PGM.height pgm" "PGM.width pgm" "PGM.data pgm"]
      assms(2,3)
    by (intro exI [of _ "rotate_spec (nat (PGM.width pgm)) (nat (PGM.height pgm)) (PGM.data pgm)"])
       (simp add: rotate_spec_nth)
  have 2: "\<exists>nd. PPM_Rotate90CW ppm =
             Inr (ppm\<lparr>PPM.data := nd, PPM.width := PPM.height ppm, PPM.height := PPM.width ppm\<rparr>) \<and>
           raster_ok (PPM.height ppm) (PPM.width ppm) nd \<and>
           (\<forall>i<nat (PPM.width ppm). \<forall>j<nat (PPM.height ppm).
              nd ! i ! j = PPM.data ppm ! (nat (PPM.height ppm) - 1 - j) ! i)"
    using PPM_Rotate90CW_spec [OF assms(4-6)] ok [of "PPM.height ppm" "PPM.width ppm" "PPM.data ppm"]
      assms(5,6)
    by (intro exI [of _ "rotate_spec (nat (PPM.width ppm)) (nat (PPM.height ppm)) (PPM.data ppm)"])
       (simp add: rotate_spec_nth)
  from 1 2 PGM_Rotate90CW_four [OF assms(1-3)] PPM_Rotate90CW_four [OF assms(4-6)]
  show ?thesis by blast
qed

theorem Rotate90CW_spec_witness:
  "PGM_Rotate90CW example_pgm =
     Inr \<lparr>PGM.data = [[3, 0], [128, 100], [255, 200]], width = 2, height = 3,
          magicNumber = ''P2'', maxv = 255\<rparr> \<and>
   thenE (thenE (thenE (PGM_Rotate90CW example_pgm) PGM_Rotate90CW) PGM_Rotate90CW) PGM_Rotate90CW
     = Inr example_pgm \<and>
   thenE (thenE (thenE (PPM_Rotate90CW example_ppm) PPM_Rotate90CW) PPM_Rotate90CW) PPM_Rotate90CW
     = Inr example_ppm"
proof -
  have pos: "0 < PGM.width example_pgm" "0 < PGM.height example_pgm"
    "0 < PPM.width example_ppm" "0 < PPM.height example_ppm"
    by (simp_all add: example_pgm_def example_ppm_def)
  have "PGM_Rotate90CW example_pgm =
     Inr \<lparr>PGM.data = [[3, 0], [128, 100], [255, 200]], width = 2, height = 3,
          magicNumber = ''P2'', maxv = 255\<rparr>"
    by (simp add: PGM_Rotate90CW_def example_pgm_def range_int_def get2_def idx_def upt_rec)
  with Rotate90CW_spec [OF examples_ok(2) pos(1,2) examples_ok(3) pos(3,4)]
  show ?thesis by blast
qed

section \<open>SetMaxValue\<close>

lemma for_cells_map:
  assumes r: "raster_ok (int w) (int h) d"
    and g: "\<And>i j. i < h \<Longrightarrow> j < w \<Longrightarrow> g (d ! i ! j) = Inr (f (d ! i ! j))"
  shows "for_cells (int h) (int w)
           (\<lambda>i j x. thenE (get2 x i j) (\<lambda>v. thenE (g v) (\<lambda>v'. set2 x i j v'))) d
         = Inr (map (map f) d)"
proof -
  define J where "J = (\<lambda>i j (x :: 'a list list).
     raster_ok (int w) (int h) x \<and>
     (\<forall>i'<h. \<forall>j'<w. x ! i' ! j' =
        (if i' < i \<or> (i' = i \<and> j' < j) then f (d ! i' ! j') else d ! i' ! j')))"
  let ?body = "\<lambda>i j x. thenE (get2 x i j) (\<lambda>v. thenE (g v) (\<lambda>v'. set2 x i j v'))"
  have J0: "J 0 0 d" using r by (simp add: J_def)
  have step: "\<exists>x'. ?body (int i) (int j) x = Inr x' \<and> J i (Suc j) x'"
    if i: "i < h" and j: "j < w" and Jx: "J i j x" for i j x
  proof -
    have rx: "raster_ok (int w) (int h) x" using Jx by (simp add: J_def)
    have cur: "x ! i ! j = d ! i ! j" using Jx i j by (simp add: J_def)
    have ge: "get2 x (int i) (int j) = Inr (d ! i ! j)"
      using get2_ok [OF rx, of "int i" "int j"] i j cur by simp
    let ?x' = "x[i := (x ! i)[j := f (d ! i ! j)]]"
    have s: "set2 x (int i) (int j) (f (d ! i ! j)) = Inr ?x'" "raster_ok (int w) (int h) ?x'"
      using set2_ok [OF rx, of "int i" "int j" "f (d ! i ! j)"] i j by simp_all
    have ln: "length x = h" "\<forall>k<h. length (x ! k) = w"
      using rx by (auto simp: raster_ok_def list_all_length)
    have "?x' ! i' ! j' = (if i' < i \<or> (i' = i \<and> j' < Suc j) then f (d ! i' ! j') else d ! i' ! j')"
      if "i' < h" "j' < w" for i' j'
    proof -
      have old: "x ! i' ! j' = (if i' < i \<or> (i' = i \<and> j' < j) then f (d ! i' ! j') else d ! i' ! j')"
        using Jx that unfolding J_def by blast
      show ?thesis
      proof (cases "i' = i")
        case True
        then show ?thesis using old ln i j that by (auto simp: nth_list_update less_Suc_eq)
      next
        case False
        then show ?thesis using old by simp
      qed
    qed
    then have "J i (Suc j) ?x'" using s(2) by (simp add: J_def)
    with ge s(1) g [OF i j] show ?thesis by auto
  qed
  have next_row: "J (Suc i) 0 x" if "i < h" "J i w x" for i x
    using that unfolding J_def by (auto simp: less_Suc_eq)
  have "\<exists>x. for_cells (int h) (int w) ?body d = Inr x \<and> J h 0 x"
    by (rule for_cells_range_invariant [where J = J and body = ?body], rule J0, rule step)
       (auto intro: next_row)
  then obtain x where x: "for_cells (int h) (int w) ?body d = Inr x" "J h 0 x" by blast
  have ln: "length x = h" "\<forall>k<h. length (x ! k) = w" "length d = h" "\<forall>k<h. length (d ! k) = w"
    using x(2) r by (auto simp: J_def raster_ok_def list_all_length)
  have "x = map (map f) d"
  proof (rule nth_equalityI)
    show "length x = length (map (map f) d)" using ln by simp
  next
    fix a assume "a < length x"
    then have a: "a < h" using ln by simp
    show "x ! a = map (map f) d ! a"
      by (rule nth_equalityI) (use a ln x(2) in \<open>simp_all add: J_def\<close>)
  qed
  with x(1) show ?thesis by simp
qed

lemma trunc_quotient: "trunc (of_nat a / of_nat b) = int (a div b)"
proof -
  have "(0::rat) \<le> of_nat a / of_nat b" by simp
  then have "trunc (of_nat a / of_nat b) = \<lfloor>(of_nat a / of_nat b :: rat)\<rfloor>"
    by (simp only: trunc_def if_True)
  also have "\<dots> = \<lfloor>(of_int (int a) / of_int (int b) :: rat)\<rfloor>" by simp
  also have "\<dots> = int a div int b" by (rule floor_divide_of_int_eq)
  finally show ?thesis by (simp add: zdiv_int)
qed

lemma scaled_sample:
  assumes "0 < old" and "unat (s :: 8 word) \<le> old"
  shows "toUint8 (fdiv (fmul (float64_u (unat s)) (float64_u (unat new))) (float64_u old))
         = Inr (word_of_nat (unat s * unat (new :: 8 word) div old))"
proof -
  define p where "p = unat s * unat new"
  have "unat s * unat new \<le> old * unat new" using assms(2) by simp
  then have "unat s * unat new div old \<le> unat new"
    using assms(1) by (metis div_le_mono nonzero_mult_div_cancel_left less_numeral_extra(3))
  moreover have n: "unat new < 256" using unsigned_less [of new, where ?'a = nat] by simp
  ultimately have lt: "p div old < 256" unfolding p_def by linarith
  have "unat s < 256" using unsigned_less [of s, where ?'a = nat] by simp
  then have "unat s * unat new \<le> 256 * 256" using n by (intro mult_mono) simp_all
  then have p16: "p \<le> 65536" by (simp add: p_def)
  then have p52: "p \<le> 2 ^ 52" by simp
  have "\<bar>int p\<bar> \<le> 2 ^ 53" using p16 by simp
  then have "round64 (of_int (int p)) = Fin (of_int (int p))" by (rule round64_of_int)
  then have mul: "fmul (float64_u (unat s)) (float64_u (unat new)) = Fin (of_nat p)"
    by (simp add: float64_u_def p_def)
  from round64_quotient [OF assms(1) p52] obtain r
    where r: "round64 (of_nat p / of_nat old) = Fin r" "trunc r = int (p div old)" by blast
  have "toUint8 (fdiv (Fin (of_nat p)) (float64_u old)) = Inr (word_of_nat (p div old))"
    using assms(1) r lt by (simp add: float64_u_def)
  then show ?thesis by (simp only: mul p_def)
qed


lemma PGM_SetMaxValue_exact:
  assumes ok: "PGM_ok pgm" and old: "0 < PGM.maxv pgm"
    and le: "list_all (list_all (\<lambda>s. unat s \<le> PGM.maxv pgm)) (PGM.data pgm)"
  shows "PGM_SetMaxValue newMax pgm =
    Inr (pgm\<lparr>PGM.data := map (map (\<lambda>s. word_of_nat (unat s * unat newMax div PGM.maxv pgm)))
                              (PGM.data pgm),
             PGM.maxv := unat newMax\<rparr>)"
proof -
  define w where "w = nat (PGM.width pgm)"
  define h where "h = nat (PGM.height pgm)"
  define d where "d = PGM.data pgm"
  have hh: "PGM.height pgm = int h"
    using ok by (simp add: PGM_ok_def raster_ok_def h_def)
  show ?thesis
  proof (cases "h = 0")
    case True
    then have "d = []" using ok hh by (simp add: PGM_ok_def raster_ok_def d_def)
    then show ?thesis
      using True hh by (simp add: PGM_SetMaxValue_def for_cells_def range_int_def d_def)
  next
    case False
    then have "d \<noteq> []" using ok hh by (auto simp: PGM_ok_def raster_ok_def d_def)
    then have "int (length (hd d)) = PGM.width pgm"
      using ok by (cases d) (auto simp: PGM_ok_def raster_ok_def d_def)
    then have ww: "PGM.width pgm = int w" by (simp add: w_def)
    have r: "raster_ok (int w) (int h) d"
      using ok by (simp add: PGM_ok_def ww hh d_def)
    have s: "unat (d ! i ! j) \<le> PGM.maxv pgm" if "i < h" "j < w" for i j
      using le r that by (auto simp: list_all_length raster_ok_def d_def)
    have "for_cells (int h) (int w)
            (\<lambda>i j x. thenE (get2 x i j) (\<lambda>v.
               thenE (toUint8 (fdiv (fmul (float64_u (unat v)) (float64_u (unat newMax)))
                                    (float64_u (PGM.maxv pgm))))
                 (\<lambda>v'. set2 x i j v'))) d
          = Inr (map (map (\<lambda>s. word_of_nat (unat s * unat newMax div PGM.maxv pgm))) d)"
      by (rule for_cells_map [OF r]) (simp add: scaled_sample [OF old] s)
    then show ?thesis
      by (simp add: PGM_SetMaxValue_def ww hh d_def)
  qed
qed

text \<open>
  Claim C8, as amended.  \<open>PGM.SetMaxValue(newMax)\<close>, on an image with \<open>oldMax > 0\<close> whose
  samples do not exceed \<open>oldMax\<close>, returns normally for every \<open>newMax\<close>, zero included:
  it stores \<open>newMax\<close> as the max value, keeps width, height, magic number and the shape
  of the raster, and replaces every sample \<open>s\<close> by an integer \<open>s'\<close> with
  \<open>|s' * oldMax - s * newMax| < oldMax\<close>, that is, less than one away from
  \<open>s * newMax / oldMax\<close>.  \<open>PPM.SetMaxValue(newMax)\<close> only stores \<open>newMax\<close>: every sample
  stays as it is.  Neither function has an error result.
\<close>

theorem SetMaxValue_rescales:
  assumes "PGM_ok pgm" and "0 < PGM.maxv pgm"
    and "list_all (list_all (\<lambda>s. unat s \<le> PGM.maxv pgm)) (PGM.data pgm)"
  shows "(\<exists>d'. PGM_SetMaxValue newMax pgm =
                 Inr (pgm\<lparr>PGM.data := d', PGM.maxv := unat newMax\<rparr>) \<and>
               raster_ok (PGM.width pgm) (PGM.height pgm) d' \<and>
               (\<forall>i<length (PGM.data pgm). \<forall>j<length (PGM.data pgm ! i).
                  \<bar>int (unat (d' ! i ! j)) * int (PGM.maxv pgm) -
                    int (unat (PGM.data pgm ! i ! j)) * int (unat newMax)\<bar> < int (PGM.maxv pgm))) \<and>
         PPM_SetMaxValue newMax ppm = Inr (ppm\<lparr>PPM.maxv := unat newMax\<rparr>)"
proof -
  let ?old = "PGM.maxv pgm" and ?d = "PGM.data pgm"
  let ?f = "\<lambda>s :: 8 word. word_of_nat (unat s * unat newMax div ?old) :: 8 word"
  have r: "raster_ok (PGM.width pgm) (PGM.height pgm) (map (map ?f) ?d)"
    using assms(1) by (simp add: PGM_ok_def PGM_Invert_ok)
  have near: "\<bar>int (unat (map (map ?f) ?d ! i ! j)) * int ?old - int (unat (?d ! i ! j)) * int (unat newMax)\<bar>
                < int ?old"
    if i: "i < length ?d" and j: "j < length (?d ! i)" for i j
  proof -
    define s where "s = unat (?d ! i ! j)"
    define n where "n = unat newMax"
    have "s \<le> ?old" using assms(3) i j by (simp add: list_all_length s_def)
    then have "s * n \<le> ?old * n" by simp
    then have "s * n div ?old \<le> n"
      using assms(2) by (metis div_le_mono nonzero_mult_div_cancel_left less_numeral_extra(3))
    moreover have "n < 256" using unsigned_less [of newMax, where ?'a = nat] by (simp add: n_def)
    ultimately have "s * n div ?old < 2 ^ LENGTH(8)" by simp
    then have u: "unat (word_of_nat (s * n div ?old) :: 8 word) = s * n div ?old"
      by (simp add: unat_of_nat)
    have "s * n = (s * n div ?old) * ?old + s * n mod ?old" by simp
    then have "int (s * n) = int (s * n div ?old) * int ?old + int (s * n mod ?old)"
      by (metis of_nat_add of_nat_mult)
    moreover have "int (s * n mod ?old) < int ?old" using assms(2) by simp
    ultimately have "\<bar>int (s * n div ?old) * int ?old - int s * int n\<bar> < int ?old" by simp
    then show ?thesis using i j u by (simp add: s_def n_def)
  qed
  show ?thesis
    using PGM_SetMaxValue_exact [OF assms, of newMax] r near
    by (intro conjI exI [of _ "map (map ?f) ?d"]) (simp_all add: PPM_SetMaxValue_def)
qed

theorem SetMaxValue_rescales_witness:
  "\<exists>d'. PGM_SetMaxValue 100 example_pgm = Inr (example_pgm\<lparr>PGM.data := d', PGM.maxv := 100\<rparr>) \<and>
        \<bar>int (unat (d' ! 0 ! 2)) * 255 - 200 * 100\<bar> < 255"
proof -
  have le: "list_all (list_all (\<lambda>s. unat s \<le> PGM.maxv example_pgm)) (PGM.data example_pgm)"
    and old: "0 < PGM.maxv example_pgm"
    by (simp_all add: example_pgm_def)
  from SetMaxValue_rescales [OF examples_ok(2) old le, of 100 example_ppm]
  obtain d' where d': "PGM_SetMaxValue 100 example_pgm =
      Inr (example_pgm\<lparr>PGM.data := d', PGM.maxv := unat (100 :: 8 word)\<rparr>)"
    and near: "\<forall>i<length (PGM.data example_pgm). \<forall>j<length (PGM.data example_pgm ! i).
                  \<bar>int (unat (d' ! i ! j)) * int (PGM.maxv example_pgm) -
                    int (unat (PGM.data example_pgm ! i ! j)) * int (unat (100 :: 8 word))\<bar>
                  < int (PGM.maxv example_pgm)"
    by blast
  have "\<bar>int (unat (d' ! 0 ! 2)) * 255 - 200 * 100\<bar> < 255"
    using near [rule_format, of 0 2] by (simp add: example_pgm_def)
  with d' show ?thesis by auto
qed

text \<open>
  Claim C8 as stated fails on both functions: \<open>PPM.SetMaxValue(100)\<close> leaves the sample 200
  of an image with max value 255 at 200 (the rescaled value would be 78), and
  \<open>PGM.SetMaxValue(0)\<close> returns normally, with every sample 0 and max value 0.
\<close>

theorem SetMaxValue_no_rescale_no_error:
  "PPM_SetMaxValue 100 example_ppm = Inr (example_ppm\<lparr>PPM.maxv := 100\<rparr>) \<and>
   R (PPM.data example_ppm ! 1 ! 0) = 200 \<and> PPM.maxv example_ppm = 255 \<and>
   PGM_SetMaxValue 0 example_pgm =
     Inr (example_pgm\<lparr>PGM.data := [[0, 0, 0], [0, 0, 0]], PGM.maxv := 0\<rparr>)"
proof -
  have le: "list_all (list_all (\<lambda>s. unat s \<le> PGM.maxv example_pgm)) (PGM.data example_pgm)"
    and old: "0 < PGM.maxv example_pgm"
    by (simp_all add: example_pgm_def)
  have "PGM_SetMaxValue 0 example_pgm =
     Inr (example_pgm\<lparr>PGM.data := [[0, 0, 0], [0, 0, 0]], PGM.maxv := 0\<rparr>)"
    using PGM_SetMaxValue_exact [OF examples_ok(2) old le, of 0] by (simp add: example_pgm_def)
  then show ?thesis by (simp add: PPM_SetMaxValue_def example_ppm_def)
qed

section \<open>ToPBM of a graymap\<close>

lemma raster_cells:
  assumes "raster_ok w h d"
  shows "map (\<lambda>y. map (\<lambda>x. f (d ! nat y ! nat x)) (range_int 0 w)) (range_int 0 h) = map (map f) d"
proof -
  have ln: "length d = nat h" "\<forall>i<nat h. length (d ! i) = nat w"
    using assms by (auto simp: raster_ok_def list_all_length)
  have row: "map (\<lambda>x. f (d ! i ! nat x)) (range_int 0 w) = map f (d ! i)" if "i < nat h" for i
    using ln that by (simp add: range_int_0 list_eq_iff_nth_eq)
  show ?thesis
    using ln by (simp add: range_int_0 list_eq_iff_nth_eq row)
qed

lemma raster_ok_sizes: "raster_ok w h d \<Longrightarrow> \<not> (h < 0 \<or> (0 < h \<and> w < 0))"
  by (cases d) (auto simp: raster_ok_def)

lemma PGM_ToPBM_exact:
  assumes "PGM_ok pgm"
  shows "PGM_ToPBM pgm =
    Inr \<lparr>PBM.data = map (map (\<lambda>s. s < word_of_nat (PGM.maxv pgm div 2))) (PGM.data pgm),
         width = PGM.width pgm, height = PGM.height pgm, magicNumber = ''P1''\<rparr>"
proof -
  let ?w = "PGM.width pgm" and ?h = "PGM.height pgm" and ?d = "PGM.data pgm"
  let ?t = "word_of_nat (PGM.maxv pgm div 2) :: 8 word"
  have r: "raster_ok ?w ?h ?d" using assms by (simp add: PGM_ok_def)
  have inner: "mapE (\<lambda>x. thenE (get2 ?d y x) (\<lambda>s. Inr (s < ?t))) (range_int 0 ?w)
               = Inr (map (\<lambda>x. ?d ! nat y ! nat x < ?t) (range_int 0 ?w))"
    if "0 \<le> y" "y < ?h" for y
    by (rule mapE_map) (use r that in \<open>simp add: get2_ok\<close>)
  have "mapE (\<lambda>y. mapE (\<lambda>x. thenE (get2 ?d y x) (\<lambda>s. Inr (s < ?t))) (range_int 0 ?w))
          (range_int 0 ?h)
        = Inr (map (\<lambda>y. map (\<lambda>x. ?d ! nat y ! nat x < ?t) (range_int 0 ?w)) (range_int 0 ?h))"
    by (rule mapE_map) (simp add: inner)
  then show ?thesis
    using raster_ok_sizes [OF r]
    by (simp add: PGM_ToPBM_def raster_cells [OF r, of "\<lambda>s. s < ?t"])
qed

lemma PGM_ToPBM_alt_exact:
  assumes "raster_ok w h d"
  shows "PGM_ToPBM_alt d w h mx =
    Inr \<lparr>PBM.data = map (map (\<lambda>s. s > word_of_int (quot mx 2))) d,
         width = w, height = h, magicNumber = ''P4''\<rparr>"
proof -
  let ?t = "word_of_int (quot mx 2) :: 8 word"
  have inner: "mapE (\<lambda>x. thenE (get2 d y x) (\<lambda>s. Inr (s > ?t))) (range_int 0 w)
               = Inr (map (\<lambda>x. d ! nat y ! nat x > ?t) (range_int 0 w))"
    if "0 \<le> y" "y < h" for y
    by (rule mapE_map) (use assms that in \<open>simp add: get2_ok\<close>)
  have "mapE (\<lambda>y. mapE (\<lambda>x. thenE (get2 d y x) (\<lambda>s. Inr (s > ?t))) (range_int 0 w))
          (range_int 0 h)
        = Inr (map (\<lambda>y. map (\<lambda>x. d ! nat y ! nat x > ?t) (range_int 0 w)) (range_int 0 h))"
    by (rule mapE_map) (simp add: inner)
  then show ?thesis
    using raster_ok_sizes [OF assms]
    by (simp add: PGM_ToPBM_alt_def raster_cells [OF assms, of "\<lambda>s. s > ?t"])
qed

text \<open>For a max value of at most 255 the two thresholds are: strictly below
  \<open>\<lfloor>max/2\<rfloor>\<close> in the PGM of this model, strictly above \<open>max/2\<close> in the other one.\<close>

lemma below_half:
  assumes "m \<le> 255"
  shows "(s :: 8 word) < word_of_nat (m div 2) \<longleftrightarrow> unat s < m div 2"
proof -
  have "unat (word_of_nat (m div 2) :: 8 word) = m div 2"
    using assms by (simp add: unat_of_nat)
  then show ?thesis by (simp add: word_less_nat_alt)
qed

lemma above_half:
  assumes "0 \<le> mx" "mx \<le> 255"
  shows "(s :: 8 word) > word_of_int (quot mx 2) \<longleftrightarrow> real (unat s) > real_of_int mx / 2"
proof -
  define m where "m = nat mx"
  have mx: "mx = int m" and m: "m \<le> 255" using assms by (simp_all add: m_def)
  have q: "quot mx 2 = int (m div 2)"
    using assms by (simp add: quot_nonneg mx zdiv_int)
  have u: "unat (word_of_nat (m div 2) :: 8 word) = m div 2"
    using m by (simp add: unat_of_nat)
  have "s > word_of_int (quot mx 2) \<longleftrightarrow> unat s > m div 2"
    unfolding q by (simp add: word_less_nat_alt u)
  also have "\<dots> \<longleftrightarrow> 2 * unat s > m" by linarith
  also have "\<dots> \<longleftrightarrow> real (2 * unat s) > real m" by (simp only: of_nat_less_iff)
  also have "\<dots> \<longleftrightarrow> real (unat s) > real m / 2" by (simp add: field_simps)
  finally show ?thesis by (simp add: mx)
qed

text \<open>
  Claim C5 on the PGM of this model: a single sample 200 under max value 255 converts to
  \<open>false\<close>, because \<open>ToPBM\<close> tests \<open>sample < uint8(max/2)\<close>, here \<open>200 < 127\<close>.  The
  other PGM implementation of the repository gives \<open>true\<close> on the same raster.
\<close>

theorem PGM_ToPBM_bright_sample:
  "PGM_ToPBM \<lparr>PGM.data = [[200]], width = 1, height = 1, magicNumber = ''P2'', maxv = 255\<rparr>
   = Inr \<lparr>PBM.data = [[False]], width = 1, height = 1, magicNumber = ''P1''\<rparr>"
  by (simp add: PGM_ToPBM_def range_int_def get2_def idx_def)

lemma PGM_ToPBM_alt_bright_sample:
  "PGM_ToPBM_alt [[200]] 1 1 255
   = Inr \<lparr>PBM.data = [[True]], width = 1, height = 1, magicNumber = ''P4''\<rparr>"
  by (simp add: PGM_ToPBM_alt_def range_int_def get2_def idx_def quot_def)

section \<open>Magic numbers at decode time\<close>

lemmas text_eval =
  nl_def space_len_def space_len_end_def space_runes_def TrimSpace_def TrimLeft.simps
  TrimRight.simps Fields_def Fields_from.simps SkipSpace.simps scan_number_def scan_int_def
  scan_uint_def is_digit_def digit_value_def parse_nat_def Sscanf_int2_def Sscanf_uint1_def
  Sscanf_uint8_3_def scanned_def

lemma ReadPBM_bad_magic:
  assumes "\<forall>line r. ReadString (NewReader file) = Some (line, r) \<longrightarrow>
             TrimSpace line \<noteq> ''P1'' \<and> TrimSpace line \<noteq> ''P4''"
  shows "\<exists>e. ReadPBM file = Inl e"
proof (cases "ReadString (NewReader file)")
  case None
  then show ?thesis by (simp add: ReadPBM_def)
next
  case (Some a)
  then show ?thesis using assms by (cases a) (simp add: ReadPBM_def Let_def)
qed

lemma ReadPGM_bad_magic:
  assumes "\<forall>line r. ReadString (NewReader file) = Some (line, r) \<longrightarrow>
             TrimSpace line \<noteq> ''P2'' \<and> TrimSpace line \<noteq> ''P5''"
  shows "\<exists>e. ReadPGM file = Inl e"
proof (cases "ReadString (NewReader file)")
  case None
  then show ?thesis by (simp add: ReadPGM_def)
next
  case (Some a)
  then show ?thesis using assms by (cases a) (simp add: ReadPGM_def Let_def)
qed

lemma ReadString_P9:
  "ReadString (NewReader (''P9'' @ [nl] @ s)) =
     Some (''P9'' @ [nl], \<lparr>buf = take 4093 s, rest = drop 4093 s\<rparr>)"
  by (simp add: ReadString_def NewReader_def ReadString_from.simps [of _ "\<lparr>buf = [], rest = _\<rparr>"]
       ReadString_from.simps [of _ "\<lparr>buf = _ # _, rest = _\<rparr>"] fill_def defaultBufSize_def nl_def)

lemma TrimSpace_P9: "TrimSpace (''P9'' @ [nl]) = ''P9''"
  by (simp add: text_eval)

lemma ReadPBM_P9: "ReadPBM (''P9'' @ [nl] @ s) = Inl (InvalidMagicNumber ''P9'')"
  by (simp only: ReadPBM_def ReadString_P9 TrimSpace_P9 Let_def option.case prod.case) simp

lemma ReadPGM_P9: "ReadPGM (''P9'' @ [nl] @ s) = Inl (InvalidMagicNumber ''P9'')"
  by (simp only: ReadPGM_def ReadString_P9 TrimSpace_P9 Let_def option.case prod.case) simp

text \<open>
  Claim C9 on the PPM decoder: a stream whose first line is \<open>P9\<close> is decoded, and the
  image carries \<open>P9\<close> as its magic number.  \<open>ReadPBM\<close> and \<open>ReadPGM\<close> reject the same
  first line (\<open>ReadPBM_P9\<close>, \<open>ReadPGM_P9\<close>), as they reject every first line that does
  not trim to one of their two magic numbers (\<open>ReadPBM_bad_magic\<close>, \<open>ReadPGM_bad_magic\<close>).
\<close>

theorem ReadPPM_accepts_P9:
  "ReadPPM (''P9'' @ [nl] @ ''1 1'' @ [nl] @ ''255'' @ [nl] @ ''1 2 3'' @ [nl]) =
     Inr \<lparr>PPM.data = [[\<lparr>R = 1, G = 2, B = 3\<rparr>]], width = 1, height = 1,
          magicNumber = ''P9'', maxv = 255\<rparr>"
  by (simp add: ReadPPM_def ScanE_def Scan_def NewScanner_def dropCR_def Let_def text_eval)

section \<open>Saving and reading back a binary bitmap\<close>

lemma forE_unchanged:
  assumes "\<And>i. i \<in> set is \<Longrightarrow> body i s = Inr s"
  shows "forE is body s = Inr s"
  using assms by (induction "is") simp_all

lemma saveP4_row_blank:
  assumes "0 \<le> w"
  shows "saveP4_row w [replicate (nat w) False] 0 = Inr (replicate (nat ((w + 7) div 8)) 0)"
proof -
  have "forE (range_int 0 w)
          (\<lambda>x row. thenE (get2 [replicate (nat w) False] 0 x) (\<lambda>v.
             if v then thenE (idx row (x div 8)) (\<lambda>b.
                         upd row (x div 8) (b OR push_bit (nat (7 - x mod 8)) 1))
             else Inr row))
          (replicate (nat ((w + 7) div 8)) 0)
        = Inr (replicate (nat ((w + 7) div 8)) (0 :: 8 word))"
    by (rule forE_unchanged) (auto simp: get2_def idx_def)
  then show ?thesis using assms by (simp add: saveP4_row_def quot_nonneg)
qed

lemma show_int_32768: "show_int 32768 = ''32768''"
  by (simp add: show_int_def show_nat.simps digit_char_def)

lemma show_int_1: "show_int 1 = ''1''"
  by (simp add: show_int_def show_nat.simps digit_char_def)

lemma PBM_Save_blank_row:
  "PBM_Save \<lparr>PBM.data = [replicate 32768 False], width = 32768, height = 1, magicNumber = ''P4''\<rparr>
   = Inr (''P4'' @ [nl] @ ''32768 1'' @ [nl] @ replicate 4096 (byte_char 0))"
proof -
  have "saveP4_row 32768 [replicate (nat 32768) False] 0
          = Inr (replicate (nat ((32768 + 7) div 8)) 0)"
    by (rule saveP4_row_blank) simp
  then have "saveP4_row 32768 [replicate 32768 False] 0 = Inr (replicate 4096 0)"
    by simp
  then show ?thesis
    by (simp add: PBM_Save_def saveP4_def range_int_def show_int_32768 show_int_1)
qed

lemma ReadString_in_buffer:
  assumes "nl \<in> set b"
  shows "ReadString \<lparr>buf = b, rest = r\<rparr> =
    Some (takeWhile (\<lambda>c. c \<noteq> nl) b @ [nl], \<lparr>buf = tl (dropWhile (\<lambda>c. c \<noteq> nl) b), rest = r\<rparr>)"
  using assms by (simp add: ReadString_def ReadString_from.simps [of "[]"])

lemma ReadString_first:
  assumes "file \<noteq> []" and "nl \<in> set (take 4096 file)"
  shows "ReadString (NewReader file) =
    Some (takeWhile (\<lambda>c. c \<noteq> nl) (take 4096 file) @ [nl],
          \<lparr>buf = tl (dropWhile (\<lambda>c. c \<noteq> nl) (take 4096 file)), rest = drop 4096 file\<rparr>)"
proof -
  have "ReadString (NewReader file) = ReadString_from [] (fill \<lparr>buf = [], rest = file\<rparr>)"
    using assms(1)
    by (simp add: ReadString_def NewReader_def ReadString_from.simps [of "[]" "\<lparr>buf = [], rest = file\<rparr>"]
          defaultBufSize_def)
  also have "fill \<lparr>buf = [], rest = file\<rparr> = \<lparr>buf = take 4096 file, rest = drop 4096 file\<rparr>"
    by (simp add: fill_def defaultBufSize_def)
  also have "ReadString_from [] \<lparr>buf = take 4096 file, rest = drop 4096 file\<rparr> =
    Some (takeWhile (\<lambda>c. c \<noteq> nl) (take 4096 file) @ [nl],
          \<lparr>buf = tl (dropWhile (\<lambda>c. c \<noteq> nl) (take 4096 file)), rest = drop 4096 file\<rparr>)"
    using ReadString_in_buffer [OF assms(2)] by (simp add: ReadString_def)
  finally show ?thesis .
qed

lemma ReadPBM_blank_row_file:
  "ReadPBM (''P4'' @ [nl] @ ''32768 1'' @ [nl] @ replicate 4096 z) = Inl (ShortRead 0 4096 4085)"
proof -
  let ?file = "''P4'' @ [nl] @ ''32768 1'' @ [nl] @ replicate 4096 z"
  have t: "take 4096 ?file = ''P4'' @ [nl] @ ''32768 1'' @ [nl] @ replicate 4085 z"
    by simp
  have 1: "ReadString (NewReader ?file) =
     Some (''P4'' @ [nl], \<lparr>buf = ''32768 1'' @ [nl] @ replicate 4085 z, rest = replicate 11 z\<rparr>)"
    by (subst ReadString_first) (simp_all add: nl_def)
  have 2: "ReadString \<lparr>buf = ''32768 1'' @ [nl] @ replicate 4085 z, rest = replicate 11 z\<rparr> =
     Some (''32768 1'' @ [nl], \<lparr>buf = replicate 4085 z, rest = replicate 11 z\<rparr>)"
    by (subst ReadString_in_buffer) (simp_all add: nl_def)
  have m: "TrimSpace (''P4'' @ [nl]) = ''P4''"
    by (simp add: text_eval)
  have d: "Sscanf_int2 (TrimSpace (''32768 1'' @ [nl])) = ([32768, 1], True)"
    by (simp add: text_eval)
  have r: "Read 4096 \<lparr>buf = replicate 4085 z, rest = replicate 11 z\<rparr> =
     Some (replicate 4085 z, \<lparr>buf = [], rest = replicate 11 z\<rparr>)"
    by (simp add: Read_def)
  have row: "ReadPBM_P4_row 32768 0 (dd, \<lparr>buf = replicate 4085 z, rest = replicate 11 z\<rparr>)
               = Inl (ShortRead 0 4096 4085)" for dd
    by (simp add: ReadPBM_P4_row_def quot_def r)
  show ?thesis
    by (simp only: ReadPBM_def 1 2 m d Let_def option.case prod.case list.case bool.case)
       (simp add: make2_def range_int_def row)
qed

text \<open>
  Claim C1 on the binary bitmap: the all-white P4 image of width 32768 and height 1 is
  saved as an 11-byte header and one row of 4096 bytes.  \<open>ReadPBM\<close> reads the two header
  lines through a \<open>bufio.Reader\<close>, whose first fill takes the first 4096 bytes of the
  file: the header and 4085 bytes of the row.  \<open>reader.Read(row)\<close> then returns those
  4085 buffered bytes without reading the file again, and \<open>ReadPBM\<close> takes the short
  count for the end of the file and fails; no image is returned.
\<close>

theorem P4_round_trip_short_read:
  "thenE (PBM_Save \<lparr>PBM.data = [replicate 32768 False], width = 32768, height = 1,
                    magicNumber = ''P4''\<rparr>) ReadPBM
   = Inl (ShortRead 0 4096 4085)"
  by (simp only: PBM_Save_blank_row thenE_Inr ReadPBM_blank_row_file)

section \<open>Drawing operations and the bounds of the canvas\<close>

lemma Set_cases:
  "Set x y c ppm =
     (if in_canvas ppm x y
      then Inr (ppm\<lparr>PPM.data := (PPM.data ppm)[nat y := (PPM.data ppm ! nat y)[nat x := c]]\<rparr>)
      else Inl IndexOutOfRange)"
  by (auto simp: in_canvas_def Set_def idx_def upd_def)

subsection \<open>Painting address by address\<close>

lemma thenE_assoc: "thenE (thenE m f) g = thenE m (\<lambda>x. thenE (f x) g)"
  by (cases m) simp_all

lemma repaint_Nil [simp]: "repaint c [] ppm = ppm"
proof -
  have "map (\<lambda>i. map (\<lambda>j. PPM.data ppm ! i ! j) [0..<length (PPM.data ppm ! i)])
          [0..<length (PPM.data ppm)] = PPM.data ppm"
    by (simp add: map_nth)
  then show ?thesis by (simp add: repaint_def)
qed

lemma paint_all_Nil [simp]: "paint_all c [] ppm = Inr ppm"
  by (simp add: paint_all_def)

lemma paint_all_Nil_fun [simp]: "paint_all c [] = Inr"
  by (rule ext) simp

lemma paint_all_Cons:
  "paint_all c ((x, y) # as) ppm = thenE (Set x y c ppm) (paint_all c as)"
proof (cases "in_canvas ppm x y")
  case False
  then show ?thesis by (simp add: paint_all_def Set_cases)
next
  case True
  let ?d = "PPM.data ppm"
  let ?d' = "?d[nat y := (?d ! nat y)[nat x := c]]"
  let ?s = "ppm\<lparr>PPM.data := ?d'\<rparr>"
  have S: "Set x y c ppm = Inr ?s" using True by (simp add: Set_cases)
  have len: "length (?d' ! i) = length (?d ! i)" for i
    by (cases "nat y < length ?d") (simp_all add: nth_list_update list_update_beyond)
  have ic: "in_canvas ?s x' y' = in_canvas ppm x' y'" for x' y'
    by (simp add: in_canvas_def len)
  have cell: "(if (int j, int i) \<in> set as then c else ?d' ! i ! j) =
              (if (int j, int i) \<in> set ((x, y) # as) then c else ?d ! i ! j)"
    if "i < length ?d" "j < length (?d ! i)" for i j
  proof (cases "i = nat y \<and> j = nat x")
    case True
    then show ?thesis using that \<open>in_canvas ppm x y\<close> by (simp add: in_canvas_def)
  next
    case False
    then have "(int j, int i) \<noteq> (x, y)" by auto
    moreover have "?d' ! i ! j = ?d ! i ! j"
      using False that by (cases "i = nat y") simp_all
    ultimately show ?thesis by auto
  qed
  define D where "D = (\<lambda>d as. map (\<lambda>i. map (\<lambda>j. if (int j, int i) \<in> set as then c else d ! i ! j)
                        [0..<length (d ! i)]) [0..<length (d :: Pixel list list)])"
  have repaint: "repaint c bs p = p\<lparr>PPM.data := D (PPM.data p) bs\<rparr>" for bs p
    by (simp add: repaint_def D_def)
  have "D ?d' as = D ?d ((x, y) # as)"
    unfolding D_def by (simp only: len length_list_update, intro map_cong refl) (simp add: cell)
  then have "repaint c as ?s = repaint c ((x, y) # as) ppm"
    by (simp add: repaint)
  then show ?thesis
    using True by (simp add: S paint_all_def ic)
qed

lemma paint_all_append:
  "paint_all c (as @ bs) ppm = thenE (paint_all c as ppm) (paint_all c bs)"
proof (induction as arbitrary: ppm)
  case Nil
  then show ?case by simp
next
  case (Cons a as)
  obtain x y where a: "a = (x, y)" by (cases a)
  have IH: "paint_all c (as @ bs) = (\<lambda>s. thenE (paint_all c as s) (paint_all c bs))"
    by (rule ext) (rule Cons.IH)
  show ?case by (simp add: a paint_all_Cons IH thenE_assoc)
qed

lemma paint_all_one: "Set x y c ppm = paint_all c [(x, y)] ppm"
  by (simp add: paint_all_Cons)

lemma forE_paint:
  assumes "\<And>i s. i \<in> set is \<Longrightarrow> body i s = paint_all c (f i) s"
  shows "forE is body ppm = paint_all c (concat (map f is)) ppm"
  using assms
proof (induction "is" arbitrary: ppm)
  case Nil
  then show ?case by simp
next
  case (Cons i "is")
  have IH: "forE is body = paint_all c (concat (map f is))"
    by (rule ext, rule Cons.IH) (simp add: Cons.prems)
  have "forE (i # is) body ppm = thenE (body i ppm) (forE is body)"
    by (simp add: thenE_def)
  then show ?case by (simp add: IH Cons.prems paint_all_append)
qed

lemma forE_Cons: "forE (i # xs) body = (\<lambda>s. thenE (body i s) (forE xs body))"
  and forE_Nil: "forE [] body = Inr"
  by (rule ext, simp add: thenE_def)+

lemma paint_all_Cons_fun:
  "paint_all c ((x, y) # as) = (\<lambda>s. thenE (Set x y c s) (paint_all c as))"
  by (rule ext) (rule paint_all_Cons)

lemma paint_all_outside:
  "(x, y) \<in> set as \<Longrightarrow> \<not> in_canvas ppm x y \<Longrightarrow> paint_all c as ppm = Inl IndexOutOfRange"
  by (auto simp: paint_all_def list_all_iff)

subsection \<open>The operations that use integers only\<close>

lemma DrawFilledRectangle_paint:
  "DrawFilledRectangle p1 w h c ppm =
     paint_all c [(x, y). y \<leftarrow> range_int (Y p1) (Y p1 + h), x \<leftarrow> range_int (X p1) (X p1 + w)] ppm"
proof -
  have inner: "forE (range_int (X p1) (X p1 + w)) (\<lambda>j. Set j i c) s =
      paint_all c (map (\<lambda>x. (x, i)) (range_int (X p1) (X p1 + w))) s" for i s
    using forE_paint [where body = "\<lambda>j. Set j i c" and f = "\<lambda>j. [(j, i)]" and c = c]
    by (simp add: paint_all_one concat_map_singleton)
  show ?thesis
    unfolding DrawFilledRectangle_def
    by (rule forE_paint [where f = "\<lambda>y. map (\<lambda>x. (x, y)) (range_int (X p1) (X p1 + w))"])
       (rule inner)
qed

lemma DrawFilledCircle_paint:
  "DrawFilledCircle center r c ppm =
     paint_all c [(X center + i, Y center + j).
                    i \<leftarrow> range_int (- r) (r + 1), j \<leftarrow> range_int (- r) (r + 1),
                    i * i + j * j \<le> r * r] ppm"
proof -
  have inner: "forE (range_int (- r) (r + 1))
       (\<lambda>j ppm. if i * i + j * j \<le> r * r then Set (X center + i) (Y center + j) c ppm else Inr ppm) s =
      paint_all c (concat (map (\<lambda>j. if i * i + j * j \<le> r * r then [(X center + i, Y center + j)] else [])
         (range_int (- r) (r + 1)))) s" for i s
    by (rule forE_paint) (simp add: paint_all_one)
  show ?thesis
    unfolding DrawFilledCircle_def
    by (rule forE_paint [where f = "\<lambda>i. concat (map (\<lambda>j. if i * i + j * j \<le> r * r then [(X center + i, Y center + j)] else [])
         (range_int (- r) (r + 1)))"])
       (rule inner)
qed

lemma range_int_shift: "map (\<lambda>i. i - r) (range_int 0 (r * 2 + 1)) = range_int (- r) (r + 1)"
proof -
  have "nat (r * 2 + 1) = nat (r + 1 - - r)" by simp
  then show ?thesis by (simp add: range_int_def o_def del: diff_minus_eq_add)
qed

lemma DrawCircle_paint:
  "DrawCircle center r c ppm =
     paint_all c [(X center + i, Y center + j).
                    i \<leftarrow> range_int (- r) (r + 1), j \<leftarrow> range_int (- r) (r + 1),
                    i * i + j * j \<le> r * r] ppm"
proof -
  let ?g = "\<lambda>i j. if i * i + j * j \<le> r * r then [(X center + i, Y center + j)] else []"
  have inner: "forE (range_int 0 (r * 2 + 1))
       (\<lambda>j ppm. let x = i - r; y = j - r
                 in if x * x + y * y \<le> r * r then Set (X center + x) (Y center + y) c ppm else Inr ppm) s =
      paint_all c (concat (map (\<lambda>j. ?g (i - r) (j - r)) (range_int 0 (r * 2 + 1)))) s" for i s
    by (rule forE_paint) (simp add: paint_all_one Let_def)
  have "DrawCircle center r c ppm =
     paint_all c (concat (map (\<lambda>i. concat (map (\<lambda>j. ?g (i - r) (j - r)) (range_int 0 (r * 2 + 1))))
        (range_int 0 (r * 2 + 1)))) ppm"
    unfolding DrawCircle_def
    by (rule forE_paint [where f = "\<lambda>i. concat (map (\<lambda>j. ?g (i - r) (j - r)) (range_int 0 (r * 2 + 1)))"])
       (rule inner)
  also have "concat (map (\<lambda>i. concat (map (\<lambda>j. ?g (i - r) (j - r)) (range_int 0 (r * 2 + 1))))
        (range_int 0 (r * 2 + 1)))
     = concat (map (\<lambda>i. concat (map (\<lambda>j. ?g i j) (range_int (- r) (r + 1)))) (range_int (- r) (r + 1)))"
    by (simp only: range_int_shift [symmetric] map_map o_def)
  finally show ?thesis by simp
qed


subsection \<open>Lines\<close>

text \<open>
  The addresses of a line come out of the float64 stepping, so they are not listed here;
  what is shown is that they do not depend on the canvas, that the first one is the start
  point, and that the line is these addresses painted without clipping.  The bound on the
  coordinates keeps every position of the loop below \<open>2^53\<close> in magnitude.
\<close>

lemma DrawLine_steps:
  "toInt (fmax (fabs (float64 a)) (fabs (float64 b))) = Inr (max \<bar>a\<bar> \<bar>b\<bar>)"
proof -
  have "max \<bar>rat_of_int a\<bar> \<bar>rat_of_int b\<bar> = rat_of_int (max \<bar>a\<bar> \<bar>b\<bar>)"
    by (simp only: of_int_max of_int_abs)
  then show ?thesis by (simp add: float64_def)
qed

lemma DrawLine_loop_paint:
  assumes "\<bar>a\<bar> \<le> 1" and "\<bar>b\<bar> \<le> 1"
    and "\<bar>x\<bar> \<le> of_int K" and "\<bar>y\<bar> \<le> of_int K" and "K + int n \<le> 2 ^ 53"
  shows "\<exists>as. length as = n \<and> (0 < n \<longrightarrow> hd as = (trunc x, trunc y)) \<and>
          (\<forall>ppm. DrawLine_loop n (Fin x) (Fin y) (Fin a) (Fin b) c ppm = paint_all c as ppm)"
  using assms(3,4,5)
proof (induction n arbitrary: x y K)
  case 0
  show ?case by (intro exI [of _ "[]"]) simp
next
  case (Suc n)
  have K1: "K + 1 \<le> 2 ^ 53" using Suc.prems(3) by simp
  have "\<bar>x + a\<bar> \<le> of_int (K + 1)" "\<bar>y + b\<bar> \<le> of_int (K + 1)"
    using Suc.prems(1,2) assms(1,2) by simp_all
  from round64_step [OF this(1) K1] round64_step [OF this(2) K1]
  obtain x' y' where x': "round64 (x + a) = Fin x'" "\<bar>x'\<bar> \<le> of_int (K + 1)"
    and y': "round64 (y + b) = Fin y'" "\<bar>y'\<bar> \<le> of_int (K + 1)" by blast
  have "K + 1 + int n \<le> 2 ^ 53" using Suc.prems(3) by simp
  from Suc.IH [OF x'(2) y'(2) this] obtain as where as: "length as = n"
    "\<forall>ppm. DrawLine_loop n (Fin x') (Fin y') (Fin a) (Fin b) c ppm = paint_all c as ppm"
    by blast
  have F: "DrawLine_loop n (Fin x') (Fin y') (Fin a) (Fin b) c = paint_all c as"
    by (rule ext) (simp add: as(2))
  have "DrawLine_loop (Suc n) (Fin x) (Fin y) (Fin a) (Fin b) c ppm =
        paint_all c ((trunc x, trunc y) # as) ppm" for ppm
    by (simp add: x'(1) y'(1) paint_all_Cons F)
  then show ?case
    using as(1) by (intro exI [of _ "(trunc x, trunc y) # as"]) simp
qed

lemma Point_eqI: "X p = X q \<Longrightarrow> Y p = Y q \<Longrightarrow> p = (q :: Point)"
  by (cases p; cases q) simp

lemma DrawLine_paint:
  assumes "\<bar>X p1\<bar> \<le> 2 ^ 51" "\<bar>Y p1\<bar> \<le> 2 ^ 51" "\<bar>X p2\<bar> \<le> 2 ^ 51" "\<bar>Y p2\<bar> \<le> 2 ^ 51"
  shows "\<exists>as. as \<noteq> [] \<and> hd as = (X p1, Y p1) \<and>
          (\<forall>ppm. DrawLine p1 p2 c ppm = paint_all c as ppm)"
proof -
  define dx where "dx = X p2 - X p1"
  define dy where "dy = Y p2 - Y p1"
  define n where "n = max \<bar>dx\<bar> \<bar>dy\<bar>"
  show ?thesis
  proof (cases "n = 0")
    case True
    then have "p2 = p1" by (intro Point_eqI) (simp_all add: n_def dx_def dy_def)
    then have "DrawLine p1 p2 c ppm = paint_all c [(X p1, Y p1)] ppm" for ppm
      by (simp add: DrawLine_same_point paint_all_Cons)
    then show ?thesis by (intro exI [of _ "[(X p1, Y p1)]"]) simp
  next
    case False
    then have n0: "0 < n" by (simp add: n_def)
    have N: "(0::rat) < of_int n" using n0 by simp
    have "\<bar>rat_of_int dx\<bar> \<le> of_int n" "\<bar>rat_of_int dy\<bar> \<le> of_int n"
      unfolding n_def by (simp_all only: of_int_abs [symmetric] of_int_le_iff)
    then have "\<bar>of_int dx / of_int n :: rat\<bar> \<le> of_int 1" "\<bar>of_int dy / of_int n :: rat\<bar> \<le> of_int 1"
      using N by (simp_all add: abs_divide pos_divide_le_eq del: of_int_abs)
    from round64_step [OF this(1)] round64_step [OF this(2)]
    obtain a b where a: "round64 (of_int dx / of_int n) = Fin a" "\<bar>a\<bar> \<le> 1"
      and b: "round64 (of_int dy / of_int n) = Fin b" "\<bar>b\<bar> \<le> 1" by auto
    have xy: "\<bar>rat_of_int (X p1)\<bar> \<le> of_int (2 ^ 51)" "\<bar>rat_of_int (Y p1)\<bar> \<le> of_int (2 ^ 51)"
      using assms(1,2) by (simp_all only: of_int_abs [symmetric] of_int_le_iff)
    have "n \<le> 2 ^ 52" using assms by (simp add: n_def dx_def dy_def) linarith
    then have "2 ^ 51 + int (nat (n + 1)) \<le> 2 ^ 53" using n0 by simp
    from DrawLine_loop_paint [OF a(2) b(2) xy this, of c]
    obtain as where as: "length as = nat (n + 1)" "hd as = (X p1, Y p1)"
      "\<forall>ppm. DrawLine_loop (nat (n + 1)) (Fin (of_int (X p1))) (Fin (of_int (Y p1))) (Fin a) (Fin b) c ppm
           = paint_all c as ppm"
      using n0 by auto
    have st: "toInt (fmax (fabs (float64 (X p2 - X p1))) (fabs (float64 (Y p2 - Y p1)))) = Inr n"
      by (simp only: DrawLine_steps n_def dx_def dy_def)
    have "DrawLine p1 p2 c ppm = paint_all c as ppm" for ppm
    proof -
      have "DrawLine p1 p2 c ppm =
            DrawLine_loop (nat (n + 1)) (float64 (X p1)) (float64 (Y p1))
              (fdiv (float64 dx) (float64 n)) (fdiv (float64 dy) (float64 n)) c ppm"
        by (simp only: DrawLine_def Let_def st thenE_Inr dx_def dy_def)
      also have "\<dots> = paint_all c as ppm"
        using as(3) a(1) b(1) False by (simp add: float64_def)
      finally show ?thesis .
    qed
    moreover have "as \<noteq> []" using as(1) n0 by auto
    ultimately show ?thesis using as(2) by blast
  qed
qed


lemma coord_51: "coord i \<Longrightarrow> coord j \<Longrightarrow> \<bar>i + j\<bar> \<le> 2 ^ 51"
  "coord i \<Longrightarrow> \<bar>i\<bar> \<le> 2 ^ 51"
  by (simp_all add: coord_def)

lemma DrawLine_coords:
  assumes "coords p1" "coords p2"
  shows "\<exists>as. (X p1, Y p1) \<in> set as \<and> (\<forall>ppm. DrawLine p1 p2 c ppm = paint_all c as ppm)"
proof -
  have "\<bar>X p1\<bar> \<le> 2 ^ 51" "\<bar>Y p1\<bar> \<le> 2 ^ 51" "\<bar>X p2\<bar> \<le> 2 ^ 51" "\<bar>Y p2\<bar> \<le> 2 ^ 51"
    using assms unfolding coords_def by (blast intro: coord_51)+
  from DrawLine_paint [OF this, of c]
  obtain as where "as \<noteq> []" "hd as = (X p1, Y p1)" "\<forall>ppm. DrawLine p1 p2 c ppm = paint_all c as ppm"
    by blast
  then show ?thesis by (metis hd_in_set)
qed

lemma paint_then:
  assumes "\<forall>ppm. f ppm = paint_all c as ppm" and "\<forall>ppm. g ppm = paint_all c bs ppm"
  shows "\<forall>ppm. thenE (f ppm) g = paint_all c (as @ bs) ppm"
proof -
  have "g = paint_all c bs" by (rule ext) (simp add: assms(2))
  then show ?thesis by (simp add: assms(1) paint_all_append)
qed

lemma DrawRectangle_paint:
  assumes "coords p1" "coord w" "coord h"
  shows "\<exists>as. {(X p1, Y p1), (X p1 + w, Y p1), (X p1 + w, Y p1 + h), (X p1, Y p1 + h)} \<subseteq> set as \<and>
          (\<forall>ppm. DrawRectangle p1 w h c ppm = paint_all c as ppm)"
proof -
  let ?p2 = "\<lparr>X = X p1 + w, Y = Y p1\<rparr>" and ?p3 = "\<lparr>X = X p1, Y = Y p1 + h\<rparr>"
  let ?p4 = "\<lparr>X = X p1 + w, Y = Y p1 + h\<rparr>"
  have b: "\<bar>X p1\<bar> \<le> 2 ^ 51" "\<bar>Y p1\<bar> \<le> 2 ^ 51" "\<bar>X p1 + w\<bar> \<le> 2 ^ 51" "\<bar>Y p1 + h\<bar> \<le> 2 ^ 51"
    using assms unfolding coords_def by (blast intro: coord_51)+
  have L: "\<exists>as. (X p, Y p) \<in> set as \<and> (\<forall>ppm. DrawLine p q c ppm = paint_all c as ppm)"
    if "\<bar>X p\<bar> \<le> 2 ^ 51" "\<bar>Y p\<bar> \<le> 2 ^ 51" "\<bar>X q\<bar> \<le> 2 ^ 51" "\<bar>Y q\<bar> \<le> 2 ^ 51" for p q
    using DrawLine_paint [OF that, of c] by (metis hd_in_set)
  obtain a1 where a1: "(X p1, Y p1) \<in> set a1" "\<forall>ppm. DrawLine p1 ?p2 c ppm = paint_all c a1 ppm"
    using L [of p1 ?p2] b by auto
  obtain a2 where a2: "(X p1 + w, Y p1) \<in> set a2" "\<forall>ppm. DrawLine ?p2 ?p4 c ppm = paint_all c a2 ppm"
    using L [of ?p2 ?p4] b by auto
  obtain a3 where a3: "(X p1 + w, Y p1 + h) \<in> set a3" "\<forall>ppm. DrawLine ?p4 ?p3 c ppm = paint_all c a3 ppm"
    using L [of ?p4 ?p3] b by auto
  obtain a4 where a4: "(X p1, Y p1 + h) \<in> set a4" "\<forall>ppm. DrawLine ?p3 p1 c ppm = paint_all c a4 ppm"
    using L [of ?p3 p1] b by auto
  have "\<forall>ppm. DrawRectangle p1 w h c ppm = paint_all c (a1 @ a2 @ a3 @ a4) ppm"
    unfolding DrawRectangle_def Let_def
    by (intro paint_then a1(2) a2(2) a3(2) a4(2))
  then show ?thesis
    using a1(1) a2(1) a3(1) a4(1) by (intro exI [of _ "a1 @ a2 @ a3 @ a4"]) simp
qed

lemma DrawTriangle_paint:
  assumes "coords p1" "coords p2" "coords p3"
  shows "\<exists>as. {(X p1, Y p1), (X p2, Y p2), (X p3, Y p3)} \<subseteq> set as \<and>
          (\<forall>ppm. DrawTriangle p1 p2 p3 c ppm = paint_all c as ppm)"
proof -
  obtain a1 where a1: "(X p1, Y p1) \<in> set a1" "\<forall>ppm. DrawLine p1 p2 c ppm = paint_all c a1 ppm"
    using DrawLine_coords [OF assms(1,2)] by blast
  obtain a2 where a2: "(X p2, Y p2) \<in> set a2" "\<forall>ppm. DrawLine p2 p3 c ppm = paint_all c a2 ppm"
    using DrawLine_coords [OF assms(2,3)] by blast
  obtain a3 where a3: "(X p3, Y p3) \<in> set a3" "\<forall>ppm. DrawLine p3 p1 c ppm = paint_all c a3 ppm"
    using DrawLine_coords [OF assms(3,1)] by blast
  have "\<forall>ppm. DrawTriangle p1 p2 p3 c ppm = paint_all c (a1 @ a2 @ a3) ppm"
    unfolding DrawTriangle_def
    by (intro paint_then a1(2) a2(2) a3(2))
  then show ?thesis
    using a1(1) a2(1) a3(1) by (intro exI [of _ "a1 @ a2 @ a3"]) simp
qed

lemma forE_paint_ex:
  assumes "\<And>i. i \<in> set xs \<Longrightarrow> \<exists>as. Q i as \<and> (\<forall>s. body i s = paint_all c as s)"
  shows "\<exists>f. (\<forall>i\<in>set xs. Q i (f i)) \<and>
             (\<forall>ppm. forE xs body ppm = paint_all c (concat (map f xs)) ppm)"
proof -
  from assms have "\<forall>i\<in>set xs. \<exists>as. Q i as \<and> (\<forall>s. body i s = paint_all c as s)" by blast
  then obtain f where f: "\<forall>i\<in>set xs. Q i (f i) \<and> (\<forall>s. body i s = paint_all c (f i) s)"
    by (rule bchoice [THEN exE])
  have "forE xs body ppm = paint_all c (concat (map f xs)) ppm" for ppm
    by (rule forE_paint) (simp add: f)
  with f show ?thesis by blast
qed

lemma DrawPolygon_paint:
  assumes ne: "points \<noteq> []" and co: "\<forall>p\<in>set points. coords p"
  shows "\<exists>as. (\<forall>p\<in>set points. (X p, Y p) \<in> set as) \<and>
          (\<forall>ppm. DrawPolygon points c ppm = paint_all c as ppm)"
proof -
  define n where "n = length points"
  have n: "0 < n" using ne by (simp add: n_def)
  let ?body = "\<lambda>i ppm. thenE (idx points i) (\<lambda>a. thenE (idx points (i + 1)) (\<lambda>b. DrawLine a b c ppm))"
  have edge: "\<exists>as. (X (points ! nat i), Y (points ! nat i)) \<in> set as \<and> (\<forall>s. ?body i s = paint_all c as s)"
    if "i \<in> set (range_int 0 (int n - 1))" for i
  proof -
    have i: "0 \<le> i" "i + 1 < int n" using that by simp_all
    then have "nat i < n" "nat (i + 1) < n" by simp_all
    then have "coords (points ! nat i)" "coords (points ! nat (i + 1))"
      using co by (simp_all add: n_def)
    from DrawLine_coords [OF this, of c] show ?thesis
      using i by (simp add: idx_def n_def)
  qed
  from forE_paint_ex [where Q = "\<lambda>i as. (X (points ! nat i), Y (points ! nat i)) \<in> set as", OF edge]
  obtain f where f: "\<forall>i\<in>set (range_int 0 (int n - 1)). (X (points ! nat i), Y (points ! nat i)) \<in> set (f i)"
    "\<forall>ppm. forE (range_int 0 (int n - 1)) ?body ppm
        = paint_all c (concat (map f (range_int 0 (int n - 1)))) ppm"
    by blast
  have "coords (points ! (n - 1))" "coords (points ! 0)"
    using co n by (simp_all add: n_def)
  from DrawLine_coords [OF this, of c]
  obtain bs where bs: "(X (points ! (n - 1)), Y (points ! (n - 1))) \<in> set bs"
    "\<forall>ppm. DrawLine (points ! (n - 1)) (points ! 0) c ppm = paint_all c bs ppm" by blast
  have e: "nat (int (length points) - 1) = n - 1" unfolding n_def by arith
  have last: "\<forall>ppm. thenE (idx points (int (length points) - 1)) (\<lambda>a. thenE (idx points 0) (\<lambda>b.
                 DrawLine a b c ppm)) = paint_all c bs ppm"
    using n bs(2) by (simp add: idx_def e) (simp add: n_def)
  let ?as = "concat (map f (range_int 0 (int n - 1))) @ bs"
  have "\<forall>ppm. DrawPolygon points c ppm = paint_all c ?as ppm"
    unfolding DrawPolygon_def using f(2) last by (intro paint_then) (simp_all add: n_def)
  moreover have "(X p, Y p) \<in> set ?as" if "p \<in> set points" for p
  proof -
    from that obtain k where k: "k < n" "p = points ! k"
      by (auto simp: in_set_conv_nth n_def)
    show ?thesis
    proof (cases "k = n - 1")
      case True
      then show ?thesis using bs(1) k by simp
    next
      case False
      then have mem: "int k \<in> set (range_int 0 (int n - 1))" using k by simp
      with f(1) have "(X (points ! nat (int k)), Y (points ! nat (int k))) \<in> set (f (int k))"
        by blast
      then have "(X p, Y p) \<in> set (f (int k))" using k by simp
      with mem have "(X p, Y p) \<in> (\<Union>i\<in>set (range_int 0 (int n - 1)). set (f i))" by blast
      then show ?thesis by simp
    qed
  qed
  ultimately show ?thesis by blast
qed


subsection \<open>Filled triangles\<close>

lemma sort_by_Y_sorted:
  "\<exists>q0 q1 q2. sort_by_Y p1 p2 p3 = [q0, q1, q2] \<and> Y q0 \<le> Y q1 \<and> Y q1 \<le> Y q2 \<and>
      {q0, q1, q2} = {p1, p2, p3}"
  by (auto simp: sort_by_Y_def swap_if_lower_def eval_nat_numeral)

lemma coord_diff: "coord i \<Longrightarrow> coord j \<Longrightarrow> \<bar>i - j\<bar> \<le> 2 ^ 25"
  by (simp add: coord_def)

lemma edge_x:
  assumes t: "\<bar>t\<bar> \<le> 2 ^ 25" and x0: "coord x0" and d: "\<bar>d\<bar> \<le> 2 ^ 25"
  shows "\<exists>x. toInt (fadd (float64 x0) (fmul (Fin t) (float64 d))) = Inr x \<and> \<bar>x\<bar> \<le> 2 ^ 51 \<and>
             (d = 0 \<longrightarrow> x = x0)"
proof -
  have D: "\<bar>rat_of_int d\<bar> \<le> 2 ^ 25"
    using d by (metis of_int_abs of_int_le_iff of_int_numeral of_int_power)
  have "\<bar>t * of_int d\<bar> \<le> 2 ^ 25 * 2 ^ 25"
    unfolding abs_mult using t D by (intro mult_mono) simp_all
  then have "\<bar>t * of_int d\<bar> \<le> of_int (2 ^ 50)" by simp
  from round64_step [OF this] obtain m where m: "round64 (t * of_int d) = Fin m" "\<bar>m\<bar> \<le> of_int (2 ^ 50)"
    by auto
  have "\<bar>rat_of_int x0\<bar> \<le> 2 ^ 24"
    using x0 unfolding coord_def by (metis of_int_abs of_int_le_iff of_int_numeral of_int_power)
  then have "\<bar>of_int x0 + m\<bar> \<le> of_int (2 ^ 51)" using m(2) by simp
  from round64_step [OF this] obtain v where v: "round64 (of_int x0 + m) = Fin v" "\<bar>v\<bar> \<le> of_int (2 ^ 51)"
    by auto
  have x: "toInt (fadd (float64 x0) (fmul (Fin t) (float64 d))) = Inr (trunc v)"
    by (simp add: float64_def m(1) v(1))
  have "trunc v = x0" if "d = 0"
  proof -
    have "m = 0" using m(1) that by simp
    moreover have "\<bar>x0\<bar> \<le> 2 ^ 53" using x0 by (simp add: coord_def)
    ultimately have "v = of_int x0" using v(1) round64_of_int [of x0] by simp
    then show ?thesis by simp
  qed
  with x trunc_abs_le [OF v(2)] show ?thesis by auto
qed

lemma slope_finite:
  assumes "dy \<noteq> 0" and "\<bar>dx\<bar> \<le> 2 ^ 25"
  shows "\<exists>t. fdiv (float64 dx) (float64 dy) = Fin t \<and> \<bar>t\<bar> \<le> 2 ^ 25"
proof -
  have "1 \<le> \<bar>dy\<bar>" using assms(1) by simp
  then have "(1::rat) \<le> \<bar>of_int dy\<bar>" by (metis of_int_1_le_iff of_int_abs)
  then have "\<bar>rat_of_int dx / of_int dy\<bar> \<le> \<bar>of_int dx\<bar>"
  proof -
    assume 1: "(1::rat) \<le> \<bar>of_int dy\<bar>"
    define A :: rat where "A = \<bar>of_int dx\<bar>"
    define B :: rat where "B = \<bar>of_int dy\<bar>"
    have "A * 1 \<le> A * B" using 1 by (intro mult_left_mono) (simp_all add: A_def B_def)
    moreover have "0 < B" using 1 by (simp add: B_def)
    ultimately have "A / B \<le> A" by (simp add: pos_divide_le_eq)
    then show ?thesis by (simp only: abs_divide A_def B_def)
  qed
  also have "\<dots> \<le> of_int (2 ^ 25)"
    using assms(2) by (simp only: of_int_abs [symmetric] of_int_le_iff)
  finally obtain t where "round64 (of_int dx / of_int dy) = Fin t" "\<bar>t\<bar> \<le> of_int (2 ^ 25)"
    using round64_step [of "of_int dx / of_int dy" "2 ^ 25"] by auto
  then show ?thesis using assms(1) by (simp add: float64_def)
qed

lemma scanline_paint:
  assumes "\<bar>t1\<bar> \<le> 2 ^ 25" "\<bar>t2\<bar> \<le> 2 ^ 25" "coords a" "coords b" "coord y"
  shows "\<exists>as. (y = Y a \<and> a = b \<longrightarrow> as = [(X a, y)]) \<and>
          (\<forall>ppm. scanline a (Fin t1) b (Fin t2) c y ppm = paint_all c as ppm)"
proof -
  have d: "\<bar>y - Y a\<bar> \<le> 2 ^ 25" "\<bar>y - Y b\<bar> \<le> 2 ^ 25"
    using assms(3,4,5) unfolding coords_def by (blast intro: coord_diff)+
  from edge_x [OF assms(1) _ d(1), of "X a"] assms(3)
  obtain x1 where x1: "toInt (fadd (float64 (X a)) (fmul (Fin t1) (float64 (y - Y a)))) = Inr x1"
    "\<bar>x1\<bar> \<le> 2 ^ 51" "y - Y a = 0 \<longrightarrow> x1 = X a" by (auto simp: coords_def)
  from edge_x [OF assms(2) _ d(2), of "X b"] assms(4)
  obtain x2 where x2: "toInt (fadd (float64 (X b)) (fmul (Fin t2) (float64 (y - Y b)))) = Inr x2"
    "\<bar>x2\<bar> \<le> 2 ^ 51" "y - Y b = 0 \<longrightarrow> x2 = X b" by (auto simp: coords_def)
  have sc: "scanline a (Fin t1) b (Fin t2) c y ppm = DrawLine \<lparr>X = x1, Y = y\<rparr> \<lparr>X = x2, Y = y\<rparr> c ppm" for ppm
    by (simp add: scanline_def x1(1) x2(1))
  show ?thesis
  proof (cases "y = Y a \<and> a = b")
    case True
    then have "x1 = X a" "x2 = X a" using x1(3) x2(3) by simp_all
    then have "scanline a (Fin t1) b (Fin t2) c y ppm = paint_all c [(X a, y)] ppm" for ppm
      by (simp add: sc DrawLine_same_point paint_all_Cons)
    then show ?thesis by blast
  next
    case False
    have "\<bar>y\<bar> \<le> 2 ^ 51" using assms(5) by (rule coord_51(2))
    from DrawLine_paint [of "\<lparr>X = x1, Y = y\<rparr>" "\<lparr>X = x2, Y = y\<rparr>" c] x1(2) x2(2) this
    obtain as where "\<forall>ppm. DrawLine \<lparr>X = x1, Y = y\<rparr> \<lparr>X = x2, Y = y\<rparr> c ppm = paint_all c as ppm"
      by auto
    then show ?thesis using False sc by auto
  qed
qed

lemma DrawFilledTriangle_paint:
  assumes co: "coords p1" "coords p2" "coords p3"
    and top: "Y (sort_by_Y p1 p2 p3 ! 0) < Y (sort_by_Y p1 p2 p3 ! 1)"
  shows "\<exists>as. (X (sort_by_Y p1 p2 p3 ! 0), Y (sort_by_Y p1 p2 p3 ! 0)) \<in> set as \<and>
          (\<forall>ppm. DrawFilledTriangle p1 p2 p3 c ppm = paint_all c as ppm)"
proof -
  obtain q0 q1 q2 where q: "sort_by_Y p1 p2 p3 = [q0, q1, q2]" "Y q0 \<le> Y q1" "Y q1 \<le> Y q2"
    "{q0, q1, q2} = {p1, p2, p3}"
    using sort_by_Y_sorted [of p1 p2 p3] by blast
  have "\<forall>p\<in>{p1, p2, p3}. coords p" using co by simp
  then have "\<forall>p\<in>{q0, q1, q2}. coords p" by (simp only: q(4))
  then have cq: "coords q0" "coords q1" "coords q2" by simp_all
  have lt: "Y q0 < Y q1" using top by (simp add: q(1))
  have dx: "\<bar>X q1 - X q0\<bar> \<le> 2 ^ 25" "\<bar>X q2 - X q0\<bar> \<le> 2 ^ 25" "\<bar>X q2 - X q1\<bar> \<le> 2 ^ 25"
    using cq unfolding coords_def by (blast intro: coord_diff)+
  obtain t1 where t1: "fdiv (float64 (X q1 - X q0)) (float64 (Y q1 - Y q0)) = Fin t1" "\<bar>t1\<bar> \<le> 2 ^ 25"
    using slope_finite [OF _ dx(1), of "Y q1 - Y q0"] lt by auto
  obtain t2 where t2: "fdiv (float64 (X q2 - X q0)) (float64 (Y q2 - Y q0)) = Fin t2" "\<bar>t2\<bar> \<le> 2 ^ 25"
    using slope_finite [OF _ dx(2), of "Y q2 - Y q0"] lt q(3) by auto
  define s3 where "s3 = fdiv (float64 (X q2 - X q1)) (float64 (Y q2 - Y q1))"
  let ?r1 = "range_int (Y q0) (Y q1 + 1)" and ?r2 = "range_int (Y q1 + 1) (Y q2 + 1)"
  have cy: "coord y" if "Y q0 \<le> y" "y \<le> Y q2" for y
    using that cq by (auto simp: coords_def coord_def)
  have up: "\<exists>as. (y = Y q0 \<longrightarrow> as = [(X q0, Y q0)]) \<and>
               (\<forall>s. scanline q0 (Fin t1) q0 (Fin t2) c y s = paint_all c as s)"
    if "y \<in> set ?r1" for y
  proof -
    have "coord y" using that q(3) by (intro cy) simp_all
    from scanline_paint [OF t1(2) t2(2) cq(1) cq(1) this, of c] show ?thesis by auto
  qed
  from forE_paint_ex [where Q = "\<lambda>y as. y = Y q0 \<longrightarrow> as = [(X q0, Y q0)]"
      and body = "scanline q0 (Fin t1) q0 (Fin t2) c" and xs = ?r1, OF up]
  obtain f1 where f1: "\<forall>y\<in>set ?r1. y = Y q0 \<longrightarrow> f1 y = [(X q0, Y q0)]"
    "\<forall>ppm. forE ?r1 (scanline q0 (Fin t1) q0 (Fin t2) c) ppm = paint_all c (concat (map f1 ?r1)) ppm"
    by blast
  have low: "\<exists>as. True \<and> (\<forall>s. scanline q1 s3 q0 (Fin t2) c y s = paint_all c as s)"
    if "y \<in> set ?r2" for y
  proof -
    have y: "Y q1 < y" "y \<le> Y q2" using that by simp_all
    then have "Y q2 - Y q1 \<noteq> 0" by simp
    from slope_finite [OF this dx(3)] obtain t3 where t3: "s3 = Fin t3" "\<bar>t3\<bar> \<le> 2 ^ 25"
      unfolding s3_def by blast
    have "coord y" using y lt by (intro cy) simp_all
    from scanline_paint [OF t3(2) t2(2) cq(2) cq(1) this, of c] show ?thesis
      by (auto simp: t3(1))
  qed
  from forE_paint_ex [where Q = "\<lambda>y as. True" and body = "scanline q1 s3 q0 (Fin t2) c"
      and xs = ?r2, OF low]
  obtain f2 where f2:
    "\<forall>ppm. forE ?r2 (scanline q1 s3 q0 (Fin t2) c) ppm = paint_all c (concat (map f2 ?r2)) ppm"
    by blast
  let ?as = "concat (map f1 ?r1) @ concat (map f2 ?r2)"
  have "\<forall>ppm. DrawFilledTriangle p1 p2 p3 c ppm = paint_all c ?as ppm"
    unfolding DrawFilledTriangle_def Let_def q(1) using f1(2) f2
    by (intro paint_then) (simp_all add: t1(1) t2(1) s3_def)
  moreover have "(X q0, Y q0) \<in> set ?as"
  proof -
    have mem: "Y q0 \<in> set ?r1" using q(2) by simp
    with f1(1) have "(X q0, Y q0) \<in> set (f1 (Y q0))" by simp
    with mem have "(X q0, Y q0) \<in> (\<Union>y\<in>set ?r1. set (f1 y))" by blast
    then show ?thesis by simp
  qed
  ultimately have "\<exists>as. (X q0, Y q0) \<in> set as \<and>
      (\<forall>ppm. DrawFilledTriangle p1 p2 p3 c ppm = paint_all c as ppm)" by blast
  then show ?thesis by (simp add: q(1))
qed


lemma DrawFilledTriangle_flat_top:
  assumes "Y (sort_by_Y p1 p2 p3 ! 0) = Y (sort_by_Y p1 p2 p3 ! 1)"
  shows "DrawFilledTriangle p1 p2 p3 c ppm = Inl ImplementationDependent"
proof -
  obtain q0 q1 q2 where q: "sort_by_Y p1 p2 p3 = [q0, q1, q2]"
    using sort_by_Y_sorted [of p1 p2 p3] by blast
  have eq: "Y q1 = Y q0" using assms by (simp add: q)
  have r: "range_int (Y q0) (Y q0 + 1) = [Y q0]" by (simp add: range_int_def)
  have "fmul (fdiv (float64 (X q1 - X q0)) (float64 0)) (float64 0) = NaN"
    by (simp add: float64_def fsigned_inf_def)
  then have "scanline q0 (fdiv (float64 (X q1 - X q0)) (float64 0)) q0 s2 c (Y q0) ppm
        = Inl ImplementationDependent" for s2
    by (simp add: scanline_def float64_def)
  then show ?thesis
    by (simp add: DrawFilledTriangle_def Let_def q eq r)
qed

subsection \<open>Filled polygons\<close>

lemma polygon_vertex_paint:
  assumes i: "0 \<le> i" "i < int (length points)" and co: "\<forall>p\<in>set points. coords p"
    and y: "coord y"
  shows "\<exists>cnt' as. \<forall>ppm. polygon_vertex points c y i (cnt, ppm) =
            thenE (paint_all c as ppm) (\<lambda>s. Inr (cnt', s))"
proof -
  define a where "a = points ! nat i"
  define b where "b = points ! nat ((i + 1) mod int (length points))"
  have n: "0 < int (length points)" using i by linarith
  have ia: "idx points i = Inr a" using i by (simp add: idx_def a_def)
  have "0 \<le> (i + 1) mod int (length points)" "(i + 1) mod int (length points) < int (length points)"
    using n by simp_all
  then have ib: "idx points ((i + 1) mod int (length points)) = Inr b"
    and bm: "b \<in> set points"
    by (simp_all add: idx_def b_def)
  have am: "a \<in> set points" using i by (simp add: a_def)
  have ca: "coords a" and cb: "coords b" using co am bm by simp_all
  let ?count = "if (Y a \<le> y \<and> y < Y b) \<or> (Y b \<le> y \<and> y < Y a)
             then thenE (toInt (fadd (float64 (X a))
                           (fmul (fdiv (float64 (y - Y a)) (float64 (Y b - Y a))) (float64 (X b - X a)))))
                    (\<lambda>xi. Inr (if xi < X a then cnt + 1 else cnt))
             else Inr cnt"
  have "\<exists>cnt'. ?count = Inr cnt'"
  proof (cases "(Y a \<le> y \<and> y < Y b) \<or> (Y b \<le> y \<and> y < Y a)")
    case True
    then have "Y b - Y a \<noteq> 0" by auto
    moreover have "\<bar>y - Y a\<bar> \<le> 2 ^ 25" using y ca unfolding coords_def by (blast intro: coord_diff)
    ultimately obtain t where t: "fdiv (float64 (y - Y a)) (float64 (Y b - Y a)) = Fin t" "\<bar>t\<bar> \<le> 2 ^ 25"
      using slope_finite by blast
    have "\<bar>X b - X a\<bar> \<le> 2 ^ 25" "coord (X a)"
      using ca cb unfolding coords_def by (blast intro: coord_diff)+
    from edge_x [OF t(2) this(2,1)] obtain x where
      "toInt (fadd (float64 (X a)) (fmul (Fin t) (float64 (X b - X a)))) = Inr x" by blast
    then show ?thesis using True by (simp add: t(1))
  next
    case False
    then have "?count = Inr cnt" by (simp only: if_False)
    then show ?thesis by blast
  qed
  then obtain cnt' where cnt': "?count = Inr cnt'" by blast
  have pv: "polygon_vertex points c y i (cnt, ppm) =
      (if cnt' mod 2 \<noteq> 0 then thenE (Set (X a) y c ppm) (\<lambda>ppm. Inr (cnt', ppm))
       else Inr (cnt', ppm))" for ppm
    unfolding polygon_vertex_def by (simp only: prod.case ia ib thenE_Inr Let_def cnt')
  show ?thesis
  proof (cases "cnt' mod 2 \<noteq> 0")
    case True
    then have "polygon_vertex points c y i (cnt, ppm) =
            thenE (paint_all c [(X a, y)] ppm) (\<lambda>s. Inr (cnt', s))" for ppm
      by (simp add: pv paint_all_Cons)
    then show ?thesis by blast
  next
    case False
    then have "polygon_vertex points c y i (cnt, ppm) =
            thenE (paint_all c [] ppm) (\<lambda>s. Inr (cnt', s))" for ppm
      by (simp add: pv)
    then show ?thesis by blast
  qed
qed

lemma polygon_row_paint:
  assumes "\<forall>i\<in>set xs. 0 \<le> i \<and> i < int (length points)" and "\<forall>p\<in>set points. coords p"
    and "coord y"
  shows "\<exists>cnt' as. \<forall>ppm. forE xs (polygon_vertex points c y) (cnt, ppm) =
            thenE (paint_all c as ppm) (\<lambda>s. Inr (cnt', s))"
  using assms(1)
proof (induction xs arbitrary: cnt)
  case Nil
  have "forE [] (polygon_vertex points c y) (cnt, ppm) =
        thenE (paint_all c [] ppm) (\<lambda>s. Inr (cnt, s))" for ppm by simp
  then show ?case by blast
next
  case (Cons i xs)
  have "0 \<le> i" "i < int (length points)" using Cons.prems by simp_all
  from polygon_vertex_paint [OF this assms(2,3), of c cnt]
  obtain c1 a1 where 1: "\<forall>ppm. polygon_vertex points c y i (cnt, ppm) =
            thenE (paint_all c a1 ppm) (\<lambda>s. Inr (c1, s))" by blast
  have "\<forall>i\<in>set xs. 0 \<le> i \<and> i < int (length points)" using Cons.prems by simp
  from Cons.IH [OF this, of c1]
  obtain c2 a2 where 2: "\<forall>ppm. forE xs (polygon_vertex points c y) (c1, ppm) =
            thenE (paint_all c a2 ppm) (\<lambda>s. Inr (c2, s))" by blast
  have "forE (i # xs) (polygon_vertex points c y) (cnt, ppm) =
        thenE (paint_all c (a1 @ a2) ppm) (\<lambda>s. Inr (c2, s))" for ppm
  proof -
    have "forE (i # xs) (polygon_vertex points c y) (cnt, ppm) =
          thenE (polygon_vertex points c y i (cnt, ppm)) (forE xs (polygon_vertex points c y))"
      by (simp add: thenE_def)
    also have "\<dots> = thenE (paint_all c a1 ppm) (\<lambda>s. forE xs (polygon_vertex points c y) (c1, s))"
      by (simp add: 1 thenE_assoc)
    also have "\<dots> = thenE (paint_all c a1 ppm) (\<lambda>s. thenE (paint_all c a2 s) (\<lambda>s. Inr (c2, s)))"
      by (simp add: 2)
    finally show ?thesis by (simp add: paint_all_append thenE_assoc)
  qed
  then show ?case by blast
qed

lemma bounding_fold_coord:
  assumes "\<forall>p\<in>set ps. coords p" and "coord (fst acc)" "coord (snd acc)"
  shows "coord (fst (fold (\<lambda>p (minY, maxY). (if Y p < minY then Y p else minY,
                                      if Y p > maxY then Y p else maxY)) ps acc)) \<and>
         coord (snd (fold (\<lambda>p (minY, maxY). (if Y p < minY then Y p else minY,
                                      if Y p > maxY then Y p else maxY)) ps acc))"
  using assms
proof (induction ps arbitrary: acc)
  case Nil
  then show ?case by simp
next
  case (Cons p ps)
  obtain mn mx where acc: "acc = (mn, mx)" by (cases acc)
  define acc' where "acc' = (if Y p < mn then Y p else mn, if Y p > mx then Y p else mx)"
  have "coord (fst acc')" "coord (snd acc')" "\<forall>p\<in>set ps. coords p"
    using Cons.prems by (simp_all add: acc acc'_def coords_def)
  from Cons.IH [OF this(3,1,2)] show ?case
    by (simp add: acc acc'_def)
qed

lemma DrawFilledPolygon_paint:
  assumes ne: "points \<noteq> []" and co: "\<forall>p\<in>set points. coords p"
  shows "\<exists>as. \<forall>ppm. DrawFilledPolygon points c ppm = paint_all c as ppm"
proof -
  obtain minY maxY where b: "bounding_Y points = Inr (minY, maxY)" "coord minY" "coord maxY"
  proof -
    have 0: "idx points 0 = Inr (points ! 0)" "coords (points ! 0)"
      using ne co by (simp_all add: idx_def)
    let ?r = "fold (\<lambda>p (minY, maxY). (if Y p < minY then Y p else minY,
                                      if Y p > maxY then Y p else maxY))
                 points (Y (points ! 0), Y (points ! 0))"
    have "bounding_Y points = Inr (fst ?r, snd ?r)" by (simp add: bounding_Y_def 0(1))
    moreover have "coord (fst ?r) \<and> coord (snd ?r)"
      using 0(2) by (intro bounding_fold_coord co) (simp_all add: coords_def)
    ultimately show ?thesis using that by blast
  qed
  let ?row = "\<lambda>y ppm. thenE (forE (range_int 0 (int (length points)))
                            (polygon_vertex points c y) (0, ppm))
                     (\<lambda>(intersections, ppm). Inr ppm)"
  have row: "\<exists>as. True \<and> (\<forall>s. ?row y s = paint_all c as s)" if "y \<in> set (range_int minY (maxY + 1))" for y
  proof -
    have "coord y" using that b(2,3) by (auto simp: coord_def)
    from polygon_row_paint [OF _ co this, of "range_int 0 (int (length points))" c 0]
    obtain cnt' as where "\<forall>ppm. forE (range_int 0 (int (length points))) (polygon_vertex points c y) (0, ppm) =
            thenE (paint_all c as ppm) (\<lambda>s. Inr (cnt', s))" by auto
    then have "\<forall>s. ?row y s = paint_all c as s" by (simp add: thenE_assoc)
    then show ?thesis by blast
  qed
  from forE_paint_ex [where Q = "\<lambda>y as. True" and body = ?row and xs = "range_int minY (maxY + 1)", OF row]
  obtain f where "\<forall>ppm. forE (range_int minY (maxY + 1)) ?row ppm
        = paint_all c (concat (map f (range_int minY (maxY + 1)))) ppm" by blast
  then have "\<forall>ppm. DrawFilledPolygon points c ppm
        = paint_all c (concat (map f (range_int minY (maxY + 1)))) ppm"
    by (simp add: DrawFilledPolygon_def b(1))
  then show ?thesis by blast
qed

lemma round64_halves:
  "round64 (1 / 2) = Fin (1 / 2)" "round64 (- (1 / 2)) = Fin (- (1 / 2))"
  "round64 (3 / 2) = Fin (3 / 2)"
  using round64_eqI [of "1 / 2" "- 1" "2 ^ 52"] round64_eqI [of "3 / 2" 0 "3 * 2 ^ 51"]
    round64_minus [of "1 / 2"]
  by simp_all

lemma trunc_three_halves: "trunc (3 / 2) = 1"
  by (simp add: trunc_def floor_unique)

lemma DrawFilledPolygon_example:
  "DrawFilledPolygon [\<lparr>X = 1, Y = 0\<rparr>, \<lparr>X = 0, Y = 2\<rparr>, \<lparr>X = 2, Y = 2\<rparr>] c ppm
   = paint_all c [(2, 0), (1, 1), (0, 1)] ppm"
  by (simp add: DrawFilledPolygon_def bounding_Y_def idx_def range_int_def upt_rec
        polygon_vertex_def float64_def Let_def round64_halves trunc_unit trunc_numeral
        trunc_three_halves
        paint_all_Cons_fun thenE_assoc forE_Cons forE_Nil del: forE.simps)

text \<open>
  Claim C2, as amended.  For coordinates, sizes and radius of magnitude at most \<open>2^24\<close>,
  no drawing operation clips: each one paints a list of addresses that does not depend on
  the canvas, through \<open>PPM.Set\<close>, which has no bounds check.  If every address of the list
  is inside the raster the operation returns the canvas with exactly these pixels set to
  the colour; if one is outside it fails with the index-out-of-range panic instead of
  skipping the address.  This is \<open>paint_all\<close>.  In detail:

  \<^item> \<open>Set\<close> writes the addressed pixel inside the raster and panics outside it;
  \<^item> \<open>DrawFilledRectangle\<close> paints the addresses of the rectangle, \<open>DrawCircle\<close> and
    \<open>DrawFilledCircle\<close> both paint those of the disc;
  \<^item> \<open>DrawLine\<close> paints a list that holds its start point, \<open>DrawRectangle\<close> one that
    holds the four corners, \<open>DrawTriangle\<close> one that holds the three vertices and
    \<open>DrawPolygon\<close>, of at least one point, one that holds every vertex;
  \<^item> \<open>DrawFilledTriangle\<close> paints a list that holds its top vertex when that vertex is
    strictly above the other two (\<open>sort_by_Y\<close> is the order the code puts the vertices
    in); when two vertices share the least \<open>Y\<close> a slope is a quotient by zero, the first
    address is the conversion of a NaN, and Go leaves the outcome to the implementation;
  \<^item> \<open>DrawFilledPolygon\<close>, of at least one point, paints some list, which may be empty;
    for the points \<open>(1,0)\<close>, \<open>(0,2)\<close>, \<open>(2,2)\<close> it is \<open>(2,0)\<close>, \<open>(1,1)\<close>, \<open>(0,1)\<close>.

  The other addresses of lines and filled shapes come out of the float64 stepping and are
  not listed.
\<close>

theorem drawing_does_not_clip:
  assumes "coords p1" and "coords p2" and "coords p3" and "coords center"
    and "coord w" and "coord h" and "coord radius"
    and "points \<noteq> []" and "\<forall>p\<in>set points. coords p"
  shows
  "Set x y c ppm =
     (if in_canvas ppm x y
      then Inr (ppm\<lparr>PPM.data := (PPM.data ppm)[nat y := (PPM.data ppm ! nat y)[nat x := c]]\<rparr>)
      else Inl IndexOutOfRange) \<and>
   DrawFilledRectangle p1 w h c ppm =
     paint_all c [(i, j). j \<leftarrow> range_int (Y p1) (Y p1 + h), i \<leftarrow> range_int (X p1) (X p1 + w)] ppm \<and>
   DrawCircle center radius c ppm =
     paint_all c [(X center + i, Y center + j).
                    i \<leftarrow> range_int (- radius) (radius + 1), j \<leftarrow> range_int (- radius) (radius + 1),
                    i * i + j * j \<le> radius * radius] ppm \<and>
   DrawFilledCircle center radius c ppm =
     paint_all c [(X center + i, Y center + j).
                    i \<leftarrow> range_int (- radius) (radius + 1), j \<leftarrow> range_int (- radius) (radius + 1),
                    i * i + j * j \<le> radius * radius] ppm \<and>
   (\<exists>as. (X p1, Y p1) \<in> set as \<and> (\<forall>s. DrawLine p1 p2 c s = paint_all c as s)) \<and>
   (\<exists>as. {(X p1, Y p1), (X p1 + w, Y p1), (X p1 + w, Y p1 + h), (X p1, Y p1 + h)} \<subseteq> set as \<and>
         (\<forall>s. DrawRectangle p1 w h c s = paint_all c as s)) \<and>
   (\<exists>as. {(X p1, Y p1), (X p2, Y p2), (X p3, Y p3)} \<subseteq> set as \<and>
         (\<forall>s. DrawTriangle p1 p2 p3 c s = paint_all c as s)) \<and>
   (\<exists>as. (\<forall>p\<in>set points. (X p, Y p) \<in> set as) \<and>
         (\<forall>s. DrawPolygon points c s = paint_all c as s)) \<and>
   (Y (sort_by_Y p1 p2 p3 ! 0) < Y (sort_by_Y p1 p2 p3 ! 1) \<longrightarrow>
      (\<exists>as. (X (sort_by_Y p1 p2 p3 ! 0), Y (sort_by_Y p1 p2 p3 ! 0)) \<in> set as \<and>
            (\<forall>s. DrawFilledTriangle p1 p2 p3 c s = paint_all c as s))) \<and>
   (Y (sort_by_Y p1 p2 p3 ! 0) = Y (sort_by_Y p1 p2 p3 ! 1) \<longrightarrow>
      DrawFilledTriangle p1 p2 p3 c ppm = Inl ImplementationDependent) \<and>
   (\<exists>as. \<forall>s. DrawFilledPolygon points c s = paint_all c as s) \<and>
   DrawFilledPolygon [\<lparr>X = 1, Y = 0\<rparr>, \<lparr>X = 0, Y = 2\<rparr>, \<lparr>X = 2, Y = 2\<rparr>] c ppm =
     paint_all c [(2, 0), (1, 1), (0, 1)] ppm"
proof (intro conjI impI)
  show "Set x y c ppm =
     (if in_canvas ppm x y
      then Inr (ppm\<lparr>PPM.data := (PPM.data ppm)[nat y := (PPM.data ppm ! nat y)[nat x := c]]\<rparr>)
      else Inl IndexOutOfRange)"
    by (rule Set_cases)
  show "DrawFilledRectangle p1 w h c ppm =
     paint_all c [(i, j). j \<leftarrow> range_int (Y p1) (Y p1 + h), i \<leftarrow> range_int (X p1) (X p1 + w)] ppm"
    by (rule DrawFilledRectangle_paint)
  show "DrawCircle center radius c ppm =
     paint_all c [(X center + i, Y center + j).
                    i \<leftarrow> range_int (- radius) (radius + 1), j \<leftarrow> range_int (- radius) (radius + 1),
                    i * i + j * j \<le> radius * radius] ppm"
    by (rule DrawCircle_paint)
  show "DrawFilledCircle center radius c ppm =
     paint_all c [(X center + i, Y center + j).
                    i \<leftarrow> range_int (- radius) (radius + 1), j \<leftarrow> range_int (- radius) (radius + 1),
                    i * i + j * j \<le> radius * radius] ppm"
    by (rule DrawFilledCircle_paint)
  show "\<exists>as. (X p1, Y p1) \<in> set as \<and> (\<forall>s. DrawLine p1 p2 c s = paint_all c as s)"
    using assms(1,2) by (rule DrawLine_coords)
  show "\<exists>as. {(X p1, Y p1), (X p1 + w, Y p1), (X p1 + w, Y p1 + h), (X p1, Y p1 + h)} \<subseteq> set as \<and>
         (\<forall>s. DrawRectangle p1 w h c s = paint_all c as s)"
    using assms(1,5,6) by (rule DrawRectangle_paint)
  show "\<exists>as. {(X p1, Y p1), (X p2, Y p2), (X p3, Y p3)} \<subseteq> set as \<and>
         (\<forall>s. DrawTriangle p1 p2 p3 c s = paint_all c as s)"
    using assms(1,2,3) by (rule DrawTriangle_paint)
  show "\<exists>as. (\<forall>p\<in>set points. (X p, Y p) \<in> set as) \<and>
         (\<forall>s. DrawPolygon points c s = paint_all c as s)"
    using assms(8,9) by (rule DrawPolygon_paint)
  show "\<exists>as. \<forall>s. DrawFilledPolygon points c s = paint_all c as s"
    using assms(8,9) by (rule DrawFilledPolygon_paint)
  show "DrawFilledPolygon [\<lparr>X = 1, Y = 0\<rparr>, \<lparr>X = 0, Y = 2\<rparr>, \<lparr>X = 2, Y = 2\<rparr>] c ppm =
     paint_all c [(2, 0), (1, 1), (0, 1)] ppm"
    by (rule DrawFilledPolygon_example)
next
  assume "Y (sort_by_Y p1 p2 p3 ! 0) < Y (sort_by_Y p1 p2 p3 ! 1)"
  with assms(1,2,3)
  show "\<exists>as. (X (sort_by_Y p1 p2 p3 ! 0), Y (sort_by_Y p1 p2 p3 ! 0)) \<in> set as \<and>
            (\<forall>s. DrawFilledTriangle p1 p2 p3 c s = paint_all c as s)"
    by (rule DrawFilledTriangle_paint)
next
  assume "Y (sort_by_Y p1 p2 p3 ! 0) = Y (sort_by_Y p1 p2 p3 ! 1)"
  then show "DrawFilledTriangle p1 p2 p3 c ppm = Inl ImplementationDependent"
    by (rule DrawFilledTriangle_flat_top)
qed

theorem drawing_does_not_clip_witness:
  "DrawFilledRectangle \<lparr>X = 1, Y = 0\<rparr> 2 1 \<lparr>R = 255, G = 0, B = 0\<rparr> example_ppm
     = Inr (example_ppm\<lparr>PPM.data :=
        [[\<lparr>R = 1, G = 2, B = 3\<rparr>, \<lparr>R = 255, G = 0, B = 0\<rparr>, \<lparr>R = 255, G = 0, B = 0\<rparr>],
         [\<lparr>R = 200, G = 200, B = 200\<rparr>, \<lparr>R = 0, G = 0, B = 0\<rparr>, \<lparr>R = 255, G = 0, B = 0\<rparr>]]\<rparr>) \<and>
   DrawFilledCircle \<lparr>X = 1, Y = 1\<rparr> 1 \<lparr>R = 255, G = 0, B = 0\<rparr> example_ppm
     = Inl IndexOutOfRange \<and>
   DrawTriangle \<lparr>X = 1, Y = 0\<rparr> \<lparr>X = 2, Y = 1\<rparr> \<lparr>X = 1, Y = 5\<rparr> \<lparr>R = 255, G = 0, B = 0\<rparr> example_ppm
     = Inl IndexOutOfRange \<and>
   DrawPolygon [\<lparr>X = 1, Y = 0\<rparr>, \<lparr>X = 2, Y = 1\<rparr>, \<lparr>X = 1, Y = 5\<rparr>] \<lparr>R = 255, G = 0, B = 0\<rparr> example_ppm
     = Inl IndexOutOfRange \<and>
   DrawFilledPolygon [\<lparr>X = 1, Y = 0\<rparr>, \<lparr>X = 0, Y = 2\<rparr>, \<lparr>X = 2, Y = 2\<rparr>] \<lparr>R = 255, G = 0, B = 0\<rparr>
       example_ppm
     = Inr (example_ppm\<lparr>PPM.data :=
        [[\<lparr>R = 1, G = 2, B = 3\<rparr>, \<lparr>R = 4, G = 5, B = 6\<rparr>, \<lparr>R = 255, G = 0, B = 0\<rparr>],
         [\<lparr>R = 255, G = 0, B = 0\<rparr>, \<lparr>R = 255, G = 0, B = 0\<rparr>, \<lparr>R = 255, G = 0, B = 0\<rparr>]]\<rparr>)"
proof -
  let ?red = "\<lparr>R = 255, G = 0, B = 0\<rparr>"
  let ?p1 = "\<lparr>X = 1, Y = 0\<rparr>" and ?p2 = "\<lparr>X = 2, Y = 1\<rparr>" and ?p3 = "\<lparr>X = 1, Y = 5\<rparr>"
  have co: "coords ?p1" "coords ?p2" "coords ?p3" "coords \<lparr>X = 1, Y = 1\<rparr>" "coord 2" "coord 1"
    "[?p1, ?p2, ?p3] \<noteq> []" "\<forall>p\<in>set [?p1, ?p2, ?p3]. coords p"
    by (simp_all add: coords_def coord_def)
  note T = drawing_does_not_clip [OF co(1,2,3,4,5,6,6,7,8), of 0 0 ?red example_ppm]
  have out: "\<not> in_canvas example_ppm 1 5"
    by (simp add: in_canvas_def example_ppm_def)
  have 1: "DrawFilledRectangle ?p1 2 1 ?red example_ppm
     = Inr (example_ppm\<lparr>PPM.data :=
        [[\<lparr>R = 1, G = 2, B = 3\<rparr>, ?red, ?red],
         [\<lparr>R = 200, G = 200, B = 200\<rparr>, \<lparr>R = 0, G = 0, B = 0\<rparr>, ?red]]\<rparr>)"
    using T by (simp add: range_int_def upt_rec paint_all_def repaint_def in_canvas_def example_ppm_def)
  have 2: "DrawFilledCircle \<lparr>X = 1, Y = 1\<rparr> 1 ?red example_ppm = Inl IndexOutOfRange"
    using T by (simp add: range_int_def upt_rec paint_all_def in_canvas_def example_ppm_def)
  from T have "\<exists>as. {(X ?p1, Y ?p1), (X ?p2, Y ?p2), (X ?p3, Y ?p3)} \<subseteq> set as \<and>
         (\<forall>s. DrawTriangle ?p1 ?p2 ?p3 ?red s = paint_all ?red as s)"
    by (elim conjE)
  then obtain as where "(1, 5) \<in> set as" "DrawTriangle ?p1 ?p2 ?p3 ?red example_ppm = paint_all ?red as example_ppm"
    by auto
  then have 3: "DrawTriangle ?p1 ?p2 ?p3 ?red example_ppm = Inl IndexOutOfRange"
    using out by (simp add: paint_all_outside)
  from T have "\<exists>as. (\<forall>p\<in>set [?p1, ?p2, ?p3]. (X p, Y p) \<in> set as) \<and>
         (\<forall>s. DrawPolygon [?p1, ?p2, ?p3] ?red s = paint_all ?red as s)"
    by (elim conjE)
  then obtain bs where "(1, 5) \<in> set bs"
    "DrawPolygon [?p1, ?p2, ?p3] ?red example_ppm = paint_all ?red bs example_ppm"
    by auto
  then have 4: "DrawPolygon [?p1, ?p2, ?p3] ?red example_ppm = Inl IndexOutOfRange"
    using out by (simp add: paint_all_outside)
  have 5: "DrawFilledPolygon [\<lparr>X = 1, Y = 0\<rparr>, \<lparr>X = 0, Y = 2\<rparr>, \<lparr>X = 2, Y = 2\<rparr>] ?red example_ppm
     = Inr (example_ppm\<lparr>PPM.data :=
        [[\<lparr>R = 1, G = 2, B = 3\<rparr>, \<lparr>R = 4, G = 5, B = 6\<rparr>, ?red],
         [?red, ?red, ?red]]\<rparr>)"
    using T by (simp add: paint_all_def repaint_def in_canvas_def example_ppm_def upt_rec)
  from 1 2 3 4 5 show ?thesis by blast
qed

text \<open>
  Claim C2 as stated fails on a disc that crosses the border: the filled circle of radius
  1 around the corner \<open>(0,0)\<close> of a 2 by 2 canvas addresses \<open>(-1,0)\<close> first, and the whole
  call fails there instead of skipping the address and drawing the three pixels inside.
\<close>

theorem DrawFilledCircle_at_corner:
  "DrawFilledCircle \<lparr>X = 0, Y = 0\<rparr> 1 \<lparr>R = 255, G = 0, B = 0\<rparr>
     \<lparr>PPM.data = replicate 2 (replicate 2 \<lparr>R = 0, G = 0, B = 0\<rparr>), width = 2, height = 2,
      magicNumber = ''P3'', maxv = 255\<rparr>
   = Inl IndexOutOfRange"
  by (simp add: DrawFilledCircle_def range_int_def Set_def idx_def upd_def upt_rec)

section \<open>A small bitmap saved and read back\<close>

text \<open>The 3 by 2 example bitmap is read back unchanged from both of its encodings, the
  ASCII one and the binary one (whose file fits into the reader's buffer).\<close>

lemma show_small: "show_int 1 = ''1''" "show_int 2 = ''2''" "show_int 3 = ''3''"
  by (simp_all add: show_int_def show_nat.simps digit_char_def)

lemma saveP1_example: "saveP1 example_pbm = Inr (''1 0 0'' @ [nl] @ ''0 1 1'' @ [nl])"
  by (simp add: example_pbm_def saveP1_def range_int_def upt_rec get2_def idx_def)

lemma PBM_Save_example:
  "PBM_Save example_pbm = Inr (''P1'' @ [nl] @ ''3 2'' @ [nl] @ ''1 0 0'' @ [nl] @ ''0 1 1'' @ [nl])"
proof -
  have f: "PBM.magicNumber example_pbm = ''P1''" "PBM.width example_pbm = 3"
    "PBM.height example_pbm = 2"
    by (simp_all add: example_pbm_def)
  show ?thesis by (simp add: PBM_Save_def saveP1_example f show_small)
qed

lemma ReadPBM_example:
  "ReadPBM (''P1'' @ [nl] @ ''3 2'' @ [nl] @ ''1 0 0'' @ [nl] @ ''0 1 1'' @ [nl]) = Inr example_pbm"
proof -
  let ?file = "''P1'' @ [nl] @ ''3 2'' @ [nl] @ ''1 0 0'' @ [nl] @ ''0 1 1'' @ [nl]"
  have 1: "ReadString (NewReader ?file) =
     Some (''P1'' @ [nl], \<lparr>buf = ''3 2'' @ [nl] @ ''1 0 0'' @ [nl] @ ''0 1 1'' @ [nl], rest = []\<rparr>)"
    by (subst ReadString_first) (simp_all add: nl_def)
  have 2: "ReadString \<lparr>buf = ''3 2'' @ [nl] @ ''1 0 0'' @ [nl] @ ''0 1 1'' @ [nl], rest = []\<rparr> =
     Some (''3 2'' @ [nl], \<lparr>buf = ''1 0 0'' @ [nl] @ ''0 1 1'' @ [nl], rest = []\<rparr>)"
    by (subst ReadString_in_buffer) (simp_all add: nl_def)
  have m: "TrimSpace (''P1'' @ [nl]) = ''P1''"
    by (simp add: text_eval)
  have d: "Sscanf_int2 (TrimSpace (''3 2'' @ [nl])) = ([3, 2], True)"
    by (simp add: text_eval)
  have r0: "ReadPBM_P1_row 3 0 ([[False, False, False], [False, False, False]],
      \<lparr>buf = ''1 0 0'' @ [nl] @ ''0 1 1'' @ [nl], rest = []\<rparr>)
   = Inr ([[True, False, False], [False, False, False]], \<lparr>buf = ''0 1 1'' @ [nl], rest = []\<rparr>)"
    apply (simp add: ReadPBM_P1_row_def ReadString_in_buffer)
    apply (simp add: text_eval)
    apply (simp add: enumerate_int_def set2_def idx_def upd_def upt_rec)
    done
  have r1: "ReadPBM_P1_row 3 1 ([[True, False, False], [False, False, False]],
      \<lparr>buf = ''0 1 1'' @ [nl], rest = []\<rparr>)
   = Inr ([[True, False, False], [False, True, True]], \<lparr>buf = [], rest = []\<rparr>)"
    apply (simp add: ReadPBM_P1_row_def ReadString_in_buffer)
    apply (simp add: text_eval)
    apply (simp add: enumerate_int_def set2_def idx_def upd_def upt_rec)
    done
  have mk: "make2 2 3 False = Inr [[False, False, False], [False, False, False]]"
    by (simp add: make2_def numeral_eq_Suc)
  have rg: "range_int 0 2 = [0, 1]"
    by (simp add: range_int_def upt_rec)
  have rows: "forE (range_int 0 2) (ReadPBM_P1_row 3)
      ([[False, False, False], [False, False, False]],
       \<lparr>buf = ''1 0 0'' @ [nl] @ ''0 1 1'' @ [nl], rest = []\<rparr>)
    = Inr ([[True, False, False], [False, True, True]], \<lparr>buf = [], rest = []\<rparr>)"
    by (simp only: rg forE.simps r0 r1 sum.case)
  show ?thesis
    using 1 2 m d mk rows by (simp add: ReadPBM_def example_pbm_def)
qed

lemma PBM_P1_example_round_trip: "thenE (PBM_Save example_pbm) ReadPBM = Inr example_pbm"
  by (simp only: PBM_Save_example thenE_Inr ReadPBM_example)

lemma of_char_byte_char: "(of_char (byte_char b) :: int) = int (unat b)"
proof -
  have "(of_char (byte_char b) :: int) = of_nat (of_char (char_of (unat b)))"
    unfolding byte_char_def by (rule of_nat_of_char [symmetric])
  also have "(of_char (char_of (unat b)) :: nat) = unat b mod 256"
    by (rule of_char_of)
  also have "unat b mod 256 = unat b"
    using unsigned_less [of b, where ?'a = nat] by simp
  finally show ?thesis .
qed

lemma saveP4_example:
  "saveP4 (example_pbm\<lparr>PBM.magicNumber := ''P4''\<rparr>) = Inr [byte_char 0x80, byte_char 0x60]"
  by (simp add: example_pbm_def saveP4_def saveP4_row_def range_int_def upt_rec get2_def idx_def
        upd_def quot_def)

lemma PBM_Save_example_P4:
  "PBM_Save (example_pbm\<lparr>PBM.magicNumber := ''P4''\<rparr>)
   = Inr (''P4'' @ [nl] @ ''3 2'' @ [nl] @ [byte_char 0x80, byte_char 0x60])"
proof -
  have f: "PBM.magicNumber (example_pbm\<lparr>PBM.magicNumber := ''P4''\<rparr>) = ''P4''"
    "PBM.width (example_pbm\<lparr>PBM.magicNumber := ''P4''\<rparr>) = 3"
    "PBM.height (example_pbm\<lparr>PBM.magicNumber := ''P4''\<rparr>) = 2"
    by (simp_all add: example_pbm_def)
  show ?thesis by (simp add: PBM_Save_def saveP4_example f show_small)
qed

lemma ReadPBM_example_P4:
  "ReadPBM (''P4'' @ [nl] @ ''3 2'' @ [nl] @ [byte_char 0x80, byte_char 0x60])
   = Inr (example_pbm\<lparr>PBM.magicNumber := ''P4''\<rparr>)"
proof -
  let ?file = "''P4'' @ [nl] @ ''3 2'' @ [nl] @ [byte_char 0x80, byte_char 0x60]"
  have 1: "ReadString (NewReader ?file) =
     Some (''P4'' @ [nl], \<lparr>buf = ''3 2'' @ [nl] @ [byte_char 0x80, byte_char 0x60], rest = []\<rparr>)"
    by (subst ReadString_first) (simp_all add: nl_def)
  have 2: "ReadString \<lparr>buf = ''3 2'' @ [nl] @ [byte_char 0x80, byte_char 0x60], rest = []\<rparr> =
     Some (''3 2'' @ [nl], \<lparr>buf = [byte_char 0x80, byte_char 0x60], rest = []\<rparr>)"
    by (subst ReadString_in_buffer) (simp_all add: nl_def)
  have m: "TrimSpace (''P4'' @ [nl]) = ''P4''"
    by (simp add: text_eval)
  have d: "Sscanf_int2 (TrimSpace (''3 2'' @ [nl])) = ([3, 2], True)"
    by (simp add: text_eval)
  have rg: "range_int 0 3 = [0, 1, 2]" "range_int 0 2 = [0, 1]"
    by (simp_all add: range_int_def upt_rec)
  have r0: "ReadPBM_P4_row 3 0 ([[False, False, False], [False, False, False]],
      \<lparr>buf = [byte_char 0x80, byte_char 0x60], rest = []\<rparr>)
   = Inr ([[True, False, False], [False, False, False]], \<lparr>buf = [byte_char 0x60], rest = []\<rparr>)"
    by (simp add: ReadPBM_P4_row_def Read_def quot_def rg set2_def idx_def upd_def
          of_char_byte_char)
  have r1: "ReadPBM_P4_row 3 1 ([[True, False, False], [False, False, False]],
      \<lparr>buf = [byte_char 0x60], rest = []\<rparr>)
   = Inr ([[True, False, False], [False, True, True]], \<lparr>buf = [], rest = []\<rparr>)"
    by (simp add: ReadPBM_P4_row_def Read_def quot_def rg set2_def idx_def upd_def
          of_char_byte_char)
  have mk: "make2 2 3 False = Inr [[False, False, False], [False, False, False]]"
    by (simp add: make2_def numeral_eq_Suc)
  have rows: "forE (range_int 0 2) (ReadPBM_P4_row 3)
      ([[False, False, False], [False, False, False]], \<lparr>buf = [byte_char 0x80, byte_char 0x60], rest = []\<rparr>)
    = Inr ([[True, False, False], [False, True, True]], \<lparr>buf = [], rest = []\<rparr>)"
    by (simp only: rg forE.simps r0 r1 sum.case)
  show ?thesis
    using 1 2 m d mk rows by (simp add: ReadPBM_def example_pbm_def)
qed

lemma PBM_P4_example_round_trip:
  "thenE (PBM_Save (example_pbm\<lparr>PBM.magicNumber := ''P4''\<rparr>)) ReadPBM
   = Inr (example_pbm\<lparr>PBM.magicNumber := ''P4''\<rparr>)"
  by (simp only: PBM_Save_example_P4 thenE_Inr ReadPBM_example_P4)

section \<open>SetMaxValue drops the fraction\<close>

text \<open>The sample 128 of an image with max value 255, rescaled to max value 1, becomes 0:
  \<open>128 * 1 / 255\<close> is about 0.502 and the conversion to \<open>uint8\<close> drops the fraction,
  although the comment above it in the source says "Round to the nearest integer".\<close>

lemma PGM_SetMaxValue_truncates:
  "PGM_SetMaxValue 1 \<lparr>PGM.data = [[128]], width = 1, height = 1, magicNumber = ''P2'', maxv = 255\<rparr>
   = Inr \<lparr>PGM.data = [[0]], width = 1, height = 1, magicNumber = ''P2'', maxv = 1\<rparr>"
proof -
  let ?pgm = "\<lparr>PGM.data = [[128]], width = 1, height = 1, magicNumber = ''P2'', maxv = 255\<rparr>"
  have "PGM_ok ?pgm" "0 < PGM.maxv ?pgm"
    "list_all (list_all (\<lambda>s. unat s \<le> PGM.maxv ?pgm)) (PGM.data ?pgm)"
    by (simp_all add: PGM_ok_def raster_ok_def)
  from PGM_SetMaxValue_exact [OF this, of 1] show ?thesis by simp
qed

section \<open>Saving and reading back a binary graymap\<close>

text \<open>\<open>ReadPGM\<close> reads the rows of a P5 file the way \<open>ReadPBM\<close> reads those of a P4 file:
  the all-black graymap of width 4096 and height 1 is not read back either.\<close>

lemma saveP5PGM_blank_row:
  "saveP5PGM \<lparr>PGM.data = [replicate 4096 0], width = 4096, height = 1, magicNumber = ''P5'',
              maxv = 255\<rparr>
   = Inr (replicate 4096 (byte_char 0))"
proof -
  have "mapE (\<lambda>x. get2 [replicate 4096 (0 :: 8 word)] 0 x) (range_int 0 4096)
        = Inr (map (\<lambda>x. 0) (range_int 0 4096))"
    by (rule mapE_map) (auto simp: get2_def idx_def)
  moreover have "map (\<lambda>x. 0 :: 8 word) (range_int 0 4096) = replicate 4096 0"
    by (simp add: range_int_def map_replicate_const)
  moreover have "range_int 0 1 = [0]"
    by (simp add: range_int_def)
  ultimately show ?thesis
    by (simp add: saveP5PGM_def)
qed

lemma PGM_Save_blank_row:
  "PGM_Save \<lparr>PGM.data = [replicate 4096 0], width = 4096, height = 1, magicNumber = ''P5'',
             maxv = 255\<rparr>
   = Inr (''P5'' @ [nl] @ ''4096 1'' @ [nl] @ ''255'' @ [nl] @ replicate 4096 (byte_char 0))"
proof -
  have s: "show_int 4096 = ''4096''" "show_int 1 = ''1''" "show_nat 255 = ''255''"
    by (simp_all add: show_int_def show_nat.simps digit_char_def)
  show ?thesis
    by (simp add: PGM_Save_def saveP5PGM_blank_row s)
qed

lemma ReadPGM_blank_row_file:
  "ReadPGM (''P5'' @ [nl] @ ''4096 1'' @ [nl] @ ''255'' @ [nl] @ replicate 4096 z)
   = Inl (ShortRead 0 4096 4082)"
proof -
  let ?file = "''P5'' @ [nl] @ ''4096 1'' @ [nl] @ ''255'' @ [nl] @ replicate 4096 z"
  have 1: "ReadString (NewReader ?file) =
     Some (''P5'' @ [nl],
           \<lparr>buf = ''4096 1'' @ [nl] @ ''255'' @ [nl] @ replicate 4082 z, rest = replicate 14 z\<rparr>)"
    by (subst ReadString_first) (simp_all add: nl_def)
  have 2: "ReadString \<lparr>buf = ''4096 1'' @ [nl] @ ''255'' @ [nl] @ replicate 4082 z,
                       rest = replicate 14 z\<rparr> =
     Some (''4096 1'' @ [nl], \<lparr>buf = ''255'' @ [nl] @ replicate 4082 z, rest = replicate 14 z\<rparr>)"
    by (subst ReadString_in_buffer) (simp_all add: nl_def)
  have 3: "ReadString \<lparr>buf = ''255'' @ [nl] @ replicate 4082 z, rest = replicate 14 z\<rparr> =
     Some (''255'' @ [nl], \<lparr>buf = replicate 4082 z, rest = replicate 14 z\<rparr>)"
    by (subst ReadString_in_buffer) (simp_all add: nl_def)
  have m: "TrimSpace (''P5'' @ [nl]) = ''P5''"
    by (simp add: text_eval)
  have d: "Sscanf_int2 (TrimSpace (''4096 1'' @ [nl])) = ([4096, 1], True)"
    by (simp add: text_eval)
  have x: "Sscanf_uint1 8 (TrimSpace (''255'' @ [nl])) = Some 255"
    by (simp add: text_eval)
  have r: "Read 4096 \<lparr>buf = replicate 4082 z, rest = replicate 14 z\<rparr> =
     Some (replicate 4082 z, \<lparr>buf = [], rest = replicate 14 z\<rparr>)"
    by (simp add: Read_def)
  have row: "ReadPGM_P5_row 4096 0 (dd, \<lparr>buf = replicate 4082 z, rest = replicate 14 z\<rparr>)
               = Inl (ShortRead 0 4096 4082)" for dd
    by (simp add: ReadPGM_P5_row_def r)
  have rg: "range_int 0 1 = [0]"
    by (simp add: range_int_def)
  have rows: "forE (range_int 0 1) (ReadPGM_P5_row 4096)
                (dd, \<lparr>buf = replicate 4082 z, rest = replicate 14 z\<rparr>)
              = Inl (ShortRead 0 4096 4082)" for dd
    by (simp only: rg forE.simps row sum.case)
  show ?thesis
    using 1 2 3 m d x rows by (simp add: ReadPGM_def)
qed

lemma P5_round_trip_short_read:
  "thenE (PGM_Save \<lparr>PGM.data = [replicate 4096 0], width = 4096, height = 1,
                    magicNumber = ''P5'', maxv = 255\<rparr>) ReadPGM
   = Inl (ShortRead 0 4096 4082)"
  by (simp only: PGM_Save_blank_row thenE_Inr ReadPGM_blank_row_file)

end
